theory Spec2Isabelle
  imports Main "HOL-Library.AList" "HOL-Library.Char_ord" "HOL-Library.List_Lexorder"
begin

section \<open>Data model\<close>

text \<open>
  The type declarations of the shared model (\<^verbatim>\<open>@companion-app/shared/Model\<close>) are not
  part of the sources at hand. The records below carry the fields that the code under
  \<^verbatim>\<open>webui/src\<close> reads. Field names are suffixed where several records share a name.
\<close>

text \<open>Modelled from the spec: the version record of an installed module (the legacy flag
  and help availability are the two fields the views read).\<close>

record NewClientModuleVersionInfo2 =
  isLegacy :: bool
  hasHelp :: bool

text \<open>Modelled from the spec: \<^verbatim>\<open>moduleInfo.baseInfo\<close> of an installed module; the
  keyword list is optional (\<^verbatim>\<open>keywords?.join\<close>).\<close>

record NewClientModuleBaseInfo =
  id_base :: string
  products_base :: "string list"
  keywords_base :: "string list option"
  name_base :: string
  manufacturer_base :: string
  shortname_base :: string

text \<open>Modelled from the spec: the installed module info with its available versions.\<close>

record NewClientModuleInfo =
  baseInfo :: NewClientModuleBaseInfo
  stableVersion :: "NewClientModuleVersionInfo2 option"
  prereleaseVersion :: "NewClientModuleVersionInfo2 option"
  installedVersions :: "NewClientModuleVersionInfo2 list"

text \<open>Modelled from the spec: an entry of the store catalog.\<close>

record ModuleStoreListCacheEntry =
  id_store :: string
  products_store :: "string list"
  keywords_store :: "string list option"
  name_store :: string
  manufacturer_store :: string
  shortname_store :: string
  storeUrl :: string
  githubUrl :: "string option"

text \<open>\<^verbatim>\<open>interface FuzzyProduct\<close> of \<^verbatim>\<open>useFilteredProducts.ts\<close>; the field \<^verbatim>\<open>id\<close>
  is \<open>id_fp\<close> and the field \<^verbatim>\<open>keywords\<close> is \<open>keywords_fp\<close> here.\<close>

record FuzzyProduct =
  id_fp :: string
  installedInfo :: "NewClientModuleInfo option"
  storeInfo :: "ModuleStoreListCacheEntry option"
  product :: string
  keywords_fp :: string
  name :: string
  manufacturer :: string
  shortname :: string

section \<open>JavaScript objects used as dictionaries\<close>

text \<open>
  A \<^verbatim>\<open>Record<string, V>\<close> is an association list in the order in which the keys were
  first written. Assigning to a key that is present replaces the value where it stands,
  assigning to a new key appends it. Assigning an object to the key \<^verbatim>\<open>__proto__\<close>
  replaces the prototype and creates no property. Reading a key finds an own property;
  the properties inherited from \<^verbatim>\<open>Object.prototype\<close> are not modelled (none of their
  names contains a hyphen, which every key of the merge does).
\<close>

type_synonym 'v js_object = "(string \<times> 'v) list"

definition obj_get :: "'v js_object \<Rightarrow> string \<Rightarrow> 'v option" where
  "obj_get dict k = map_of dict k"

definition obj_set :: "string \<Rightarrow> 'v \<Rightarrow> 'v js_object \<Rightarrow> 'v js_object" where
  "obj_set k v dict = (if k = ''__proto__'' then dict else AList.update k v dict)"

text \<open>
  Own keys are enumerated with the array indices first, in ascending numeric order, and
  the other strings after them in insertion order. An array index is the canonical
  decimal form of a number below \<open>2^32 - 1\<close>.
\<close>

definition is_digit :: "char \<Rightarrow> bool" where
  "is_digit c = (c \<in> set ''0123456789'')"

definition decimal :: "string \<Rightarrow> nat" where
  "decimal k = foldl (\<lambda>n c. 10 * n + (of_char c - 48)) 0 k"

definition array_index :: "string \<Rightarrow> nat option" where
  "array_index k =
     (if k \<noteq> [] \<and> list_all is_digit k \<and> (k = ''0'' \<or> hd k \<noteq> CHR ''0'')
         \<and> decimal k < 2 ^ 32 - 1
      then Some (decimal k) else None)"

definition Object_entries :: "'v js_object \<Rightarrow> (string \<times> 'v) list" where
  "Object_entries dict =
     sort_key (\<lambda>e. the (array_index (fst e))) (filter (\<lambda>e. array_index (fst e) \<noteq> None) dict)
     @ filter (\<lambda>e. array_index (fst e) = None) dict"

definition Object_values :: "'v js_object \<Rightarrow> 'v list" where
  "Object_values dict = map snd (Object_entries dict)"

section \<open>The product catalog merger\<close>

text \<open>\<^verbatim>\<open>Array.prototype.join\<close> on a list of strings.\<close>

fun join :: "string \<Rightarrow> string list \<Rightarrow> string" where
  "join sep [] = []"
| "join sep [x] = x"
| "join sep (x # y # ys) = x @ sep @ join sep (y # ys)"

text \<open>The template string \<^verbatim>\<open>`${id}-${product}`\<close>.\<close>

definition product_key :: "string \<Rightarrow> string \<Rightarrow> string" where
  "product_key i p = i @ ''-'' @ p"

definition installed_product :: "NewClientModuleInfo \<Rightarrow> string \<Rightarrow> FuzzyProduct" where
  "installed_product moduleInfo p =
     \<lparr> id_fp = id_base (baseInfo moduleInfo),
       installedInfo = Some moduleInfo,
       storeInfo = None,
       product = p,
       keywords_fp = (case keywords_base (baseInfo moduleInfo) of
                     None \<Rightarrow> [] | Some ks \<Rightarrow> join '';'' ks),
       name = name_base (baseInfo moduleInfo),
       manufacturer = manufacturer_base (baseInfo moduleInfo),
       shortname = shortname_base (baseInfo moduleInfo) \<rparr>"

definition store_product :: "ModuleStoreListCacheEntry \<Rightarrow> string \<Rightarrow> FuzzyProduct" where
  "store_product moduleInfo p =
     \<lparr> id_fp = id_store moduleInfo,
       installedInfo = None,
       storeInfo = Some moduleInfo,
       product = p,
       keywords_fp = (case keywords_store moduleInfo of
                     None \<Rightarrow> [] | Some ks \<Rightarrow> join '';'' ks),
       name = name_store moduleInfo,
       manufacturer = manufacturer_store moduleInfo,
       shortname = shortname_store moduleInfo \<rparr>"

text \<open>The body of the inner loop over the products of an installed module.\<close>

definition add_installed ::
  "NewClientModuleInfo \<Rightarrow> string \<Rightarrow> FuzzyProduct js_object \<Rightarrow> FuzzyProduct js_object" where
  "add_installed moduleInfo p allProducts =
     obj_set (product_key (id_base (baseInfo moduleInfo)) p)
       (installed_product moduleInfo p) allProducts"

text \<open>The body of the inner loop over the products of a store entry: a record that is
  already there only gets its \<open>storeInfo\<close> assigned.\<close>

definition add_store ::
  "ModuleStoreListCacheEntry \<Rightarrow> string \<Rightarrow> FuzzyProduct js_object \<Rightarrow> FuzzyProduct js_object" where
  "add_store moduleInfo p allProducts =
     (let key = product_key (id_store moduleInfo) p in
      case obj_get allProducts key of
        Some installed \<Rightarrow> obj_set key (installed\<lparr>storeInfo := Some moduleInfo\<rparr>) allProducts
      | None \<Rightarrow> obj_set key (store_product moduleInfo p) allProducts)"

definition add_installed_modules ::
  "NewClientModuleInfo list \<Rightarrow> FuzzyProduct js_object \<Rightarrow> FuzzyProduct js_object" where
  "add_installed_modules modules allProducts =
     fold (\<lambda>moduleInfo. fold (add_installed moduleInfo) (products_base (baseInfo moduleInfo)))
       modules allProducts"

definition add_store_modules ::
  "ModuleStoreListCacheEntry list \<Rightarrow> FuzzyProduct js_object \<Rightarrow> FuzzyProduct js_object" where
  "add_store_modules storeList allProducts =
     fold (\<lambda>moduleInfo. fold (add_store moduleInfo) (products_store moduleInfo))
       storeList allProducts"

text \<open>The mapping built by the two loops; the arguments are \<^verbatim>\<open>modules.modules.values()\<close>
  and \<^verbatim>\<open>modules.storeList.values()\<close> in iteration order.\<close>

definition allProducts_of ::
  "NewClientModuleInfo list \<Rightarrow> ModuleStoreListCacheEntry list \<Rightarrow> FuzzyProduct js_object" where
  "allProducts_of modules storeList =
     add_store_modules storeList (add_installed_modules modules [])"

definition useAllConnectionProducts ::
  "NewClientModuleInfo list \<Rightarrow> ModuleStoreListCacheEntry list \<Rightarrow> FuzzyProduct list" where
  "useAllConnectionProducts modules storeList = Object_values (allProducts_of modules storeList)"

section \<open>The text filter\<close>

text \<open>
  \<^verbatim>\<open>fuzzysort.go\<close> is an external library. It is a parameter of the model: it takes the
  query, the targets and the options and either throws (\<open>Inl\<close> with the text of the
  exception) or returns its ranked results.
\<close>

record KeysOptions =
  keys :: "string list"
  threshold :: int

record KeysResult =
  obj :: FuzzyProduct
  score :: int

type_synonym fuzzy_search = "string \<Rightarrow> FuzzyProduct list \<Rightarrow> KeysOptions \<Rightarrow> string + KeysResult list"

definition filter_options :: KeysOptions where
  "filter_options = \<lparr> keys = [''product'', ''name'', ''manufacturer'', ''keywords''],
                       threshold = - 10000 \<rparr>"

definition filterProducts ::
  "fuzzy_search \<Rightarrow> FuzzyProduct list \<Rightarrow> string \<Rightarrow> string + FuzzyProduct list" where
  "filterProducts fuzzySearch allProducts filter_str =
     (if filter_str = [] then Inr allProducts
      else case fuzzySearch filter_str allProducts filter_options of
             Inl e \<Rightarrow> Inl e
           | Inr results \<Rightarrow> Inr (map obj results))"

section \<open>The merge, point by point\<close>

text \<open>
  The pairs (module, product) in the order in which the nested loops visit them, their
  composite keys, and the record that the merge holds under a key, described directly:
  the installed record written last under the key, with the store entry seen last under
  the key attached; without an installed record, the record created by the first store
  entry under the key, again with the last one attached.
\<close>

definition installed_pairs :: "NewClientModuleInfo list \<Rightarrow> (NewClientModuleInfo \<times> string) list" where
  "installed_pairs modules = concat (map (\<lambda>m. map (Pair m) (products_base (baseInfo m))) modules)"

definition store_pairs :: "ModuleStoreListCacheEntry list \<Rightarrow> (ModuleStoreListCacheEntry \<times> string) list" where
  "store_pairs storeList = concat (map (\<lambda>s. map (Pair s) (products_store s)) storeList)"

definition installed_key :: "NewClientModuleInfo \<times> string \<Rightarrow> string" where
  "installed_key mp = product_key (id_base (baseInfo (fst mp))) (snd mp)"

definition store_key :: "ModuleStoreListCacheEntry \<times> string \<Rightarrow> string" where
  "store_key sp = product_key (id_store (fst sp)) (snd sp)"

definition installed_record :: "NewClientModuleInfo list \<Rightarrow> string \<Rightarrow> FuzzyProduct option" where
  "installed_record modules k =
     map_of (rev (map (\<lambda>mp. (installed_key mp, installed_product (fst mp) (snd mp))) (installed_pairs modules))) k"

definition store_created :: "ModuleStoreListCacheEntry list \<Rightarrow> string \<Rightarrow> FuzzyProduct option" where
  "store_created storeList k =
     map_of (map (\<lambda>sp. (store_key sp, store_product (fst sp) (snd sp))) (store_pairs storeList)) k"

definition store_attached :: "ModuleStoreListCacheEntry list \<Rightarrow> string \<Rightarrow> ModuleStoreListCacheEntry option" where
  "store_attached storeList k =
     map_of (rev (map (\<lambda>sp. (store_key sp, fst sp)) (store_pairs storeList))) k"

definition merged_record ::
  "NewClientModuleInfo list \<Rightarrow> ModuleStoreListCacheEntry list \<Rightarrow> string \<Rightarrow> FuzzyProduct option" where
  "merged_record modules storeList k =
     (case installed_record modules k of
        Some e \<Rightarrow> Some (case store_attached storeList k of
                          None \<Rightarrow> e | Some s \<Rightarrow> e\<lparr>storeInfo := Some s\<rparr>)
      | None \<Rightarrow> (case store_created storeList k of
                   None \<Rightarrow> None
                 | Some e \<Rightarrow> Some (e\<lparr>storeInfo := store_attached storeList k\<rparr>)))"

subsection \<open>Example inputs\<close>

text \<open>An installed module \<open>x\<close> with the product \<open>p1\<close> and a store entry \<open>x\<close> with the
  products \<open>p1\<close> and \<open>p2\<close>, both named \<open>Foo\<close>.\<close>

definition foo_installed :: NewClientModuleInfo where
  "foo_installed =
     \<lparr> baseInfo = \<lparr> id_base = ''x'', products_base = [''p1''], keywords_base = None,
                    name_base = ''Foo'', manufacturer_base = ''Acme'', shortname_base = ''foo'' \<rparr>,
       stableVersion = None, prereleaseVersion = None, installedVersions = [] \<rparr>"

definition foo_store :: ModuleStoreListCacheEntry where
  "foo_store =
     \<lparr> id_store = ''x'', products_store = [''p1'', ''p2''], keywords_store = Some [''foo'', ''bar''],
       name_store = ''Foo'', manufacturer_store = ''Acme'', shortname_store = ''foo'',
       storeUrl = ''https://store/x'', githubUrl = None \<rparr>"

text \<open>Two modules with different identifiers whose composite keys coincide:
  \<open>a-b\<close> with the product \<open>c\<close>, and \<open>a\<close> with the product \<open>b-c\<close>.\<close>

definition ab_installed :: NewClientModuleInfo where
  "ab_installed =
     \<lparr> baseInfo = \<lparr> id_base = ''a-b'', products_base = [''c''], keywords_base = None,
                    name_base = ''AB'', manufacturer_base = ''Acme'', shortname_base = ''ab'' \<rparr>,
       stableVersion = None, prereleaseVersion = None, installedVersions = [] \<rparr>"

definition a_store :: ModuleStoreListCacheEntry where
  "a_store =
     \<lparr> id_store = ''a'', products_store = [''b-c''], keywords_store = None,
       name_store = ''A'', manufacturer_store = ''Other'', shortname_store = ''a'',
       storeUrl = ''https://store/a'', githubUrl = None \<rparr>"

text \<open>The store entry \<open>x\<close> again, with a different name, manufacturer, short name and
  keyword list.\<close>

definition foo_store_renamed :: ModuleStoreListCacheEntry where
  "foo_store_renamed =
     foo_store\<lparr>name_store := ''Renamed'', manufacturer_store := ''Someone'',
               shortname_store := ''other'', keywords_store := Some [''zzz'']\<rparr>"

subsection \<open>What the ranking library is relied on for\<close>

text \<open>The value of a product under one of the key names the library can be given; the
  two info fields are objects and have no text.\<close>

definition fuzzy_field :: "string \<Rightarrow> FuzzyProduct \<Rightarrow> string option" where
  "fuzzy_field k p =
     (if k = ''id'' then Some (id_fp p)
      else if k = ''product'' then Some (product p)
      else if k = ''keywords'' then Some (keywords_fp p)
      else if k = ''name'' then Some (name p)
      else if k = ''manufacturer'' then Some (manufacturer p)
      else if k = ''shortname'' then Some (shortname p)
      else None)"

text \<open>Modelled from the spec: the fuzzy text ranking \<^verbatim>\<open>rank(query, items, {keys, threshold})\<close>
  is a pure function that returns an ordered list of results; each result is one of the
  items, and the query matches the text of that item under one of the keys. The
  relation \<open>matches\<close> stands for a fuzzy hit that the threshold accepts.\<close>

definition ranking_contract :: "(string \<Rightarrow> string \<Rightarrow> bool) \<Rightarrow> fuzzy_search \<Rightarrow> bool" where
  "ranking_contract matches fuzzySearch \<longleftrightarrow>
     (\<forall>query items opts. \<exists>results.
        fuzzySearch query items opts = Inr results
        \<and> (\<forall>r \<in> set results.
              obj r \<in> set items
              \<and> (\<exists>k \<in> set (keys opts). \<exists>t. fuzzy_field k (obj r) = Some t \<and> matches query t)))"

text \<open>A ranking function that keeps the items with a field equal to the query, and one
  that throws on every call.\<close>

definition exact_search :: fuzzy_search where
  "exact_search query items opts =
     Inr (map (\<lambda>p. \<lparr> obj = p, score = 0 \<rparr>)
            (filter (\<lambda>p. \<exists>k \<in> set (keys opts). fuzzy_field k p = Some query) items))"

definition throwing_search :: fuzzy_search where
  "throwing_search query items opts = Inl ''TypeError''"

section \<open>The candidate list of the add-connection panel\<close>

text \<open>
  The elements that the list-building code of \<^verbatim>\<open>AddConnectionsPanel\<close> creates: an entry
  with its \<^verbatim>\<open>key\<close> and \<^verbatim>\<open>moduleInfo\<close> properties, or the warning alert with the text
  of the exception.
\<close>

datatype element =
  AddConnectionEntry string FuzzyProduct
| CAlert_warning string

text \<open>
  The construction of an entry element goes through the element factory of the component
  framework, which is external: it is a parameter that gets the \<^verbatim>\<open>key\<close> and the
  \<^verbatim>\<open>moduleInfo\<close> of the entry and returns the element or throws.
\<close>

type_synonym entry_factory = "string \<Rightarrow> FuzzyProduct \<Rightarrow> string + element"

definition make_entry :: entry_factory where
  "make_entry k moduleInfo = Inr (AddConnectionEntry k moduleInfo)"

text \<open>A factory that throws for the product \<open>p2\<close>.\<close>

definition failing_entry :: entry_factory where
  "failing_entry k moduleInfo =
     (if product moduleInfo = ''p2'' then Inl ''RangeError''
      else Inr (AddConnectionEntry k moduleInfo))"

text \<open>
  At run time the two collections of the store can hold an entry that is not of its
  declared type. \<open>None\<close> stands for such a malformed entry, one without the fields that
  the loops of the merge read: reaching it throws a \<^verbatim>\<open>TypeError\<close>, which leaves
  \<^verbatim>\<open>useAllConnectionProducts\<close>. With well-formed entries only, the merge is the one
  above.
\<close>

definition useAllConnectionProducts_runtime ::
  "NewClientModuleInfo option list \<Rightarrow> ModuleStoreListCacheEntry option list
     \<Rightarrow> string + FuzzyProduct list" where
  "useAllConnectionProducts_runtime modules storeList =
     (case those modules of
        None \<Rightarrow> Inl ''TypeError''
      | Some ms \<Rightarrow>
          (case those storeList of
             None \<Rightarrow> Inl ''TypeError''
           | Some ss \<Rightarrow> Inr (useAllConnectionProducts ms ss)))"

text \<open>\<^verbatim>\<open>allProducts.filter((p) => !!p.installedInfo || typeFilter.visibility.available)\<close>\<close>

definition typeProducts :: "FuzzyProduct list \<Rightarrow> bool \<Rightarrow> FuzzyProduct list" where
  "typeProducts allProducts available =
     filter (\<lambda>p. installedInfo p \<noteq> None \<or> available) allProducts"

text \<open>The loop that collects the entries in an object keyed by the product name; an
  exception of the factory ends it.\<close>

fun build_candidatesObj ::
  "entry_factory \<Rightarrow> FuzzyProduct list \<Rightarrow> element js_object \<Rightarrow> string + element js_object" where
  "build_candidatesObj entry [] candidatesObj = Inr candidatesObj"
| "build_candidatesObj entry (moduleInfo # searchResults) candidatesObj =
     (case entry (name moduleInfo) moduleInfo of
        Inl e \<Rightarrow> Inl e
      | Inr el \<Rightarrow>
          build_candidatesObj entry searchResults (obj_set (name moduleInfo) el candidatesObj))"

text \<open>
  The body of the \<^verbatim>\<open>try\<close> block: \<open>Inl\<close> is an exception that leaves the block.
  Without a query the entries are sorted by the lower-cased name (the sort is stable;
  \<open>toLocaleLowerCase\<close> depends on the locale and is a parameter; strings compare
  lexicographically by character code).
\<close>

definition try_candidates ::
  "entry_factory \<Rightarrow> fuzzy_search \<Rightarrow> (string \<Rightarrow> string) \<Rightarrow> FuzzyProduct list \<Rightarrow> string
     \<Rightarrow> string + element list" where
  "try_candidates entry fuzzySearch toLocaleLowerCase products filter_str =
     (case filterProducts fuzzySearch products filter_str of
        Inl e \<Rightarrow> Inl e
      | Inr searchResults \<Rightarrow>
          (case build_candidatesObj entry searchResults [] of
             Inl e \<Rightarrow> Inl e
           | Inr candidatesObj \<Rightarrow>
               if filter_str = []
               then Inr (map snd (sort_key (\<lambda>c. toLocaleLowerCase (fst c))
                                    (Object_entries candidatesObj)))
               else Inr (map snd (Object_entries candidatesObj))))"

text \<open>The \<^verbatim>\<open>try\<close>/\<^verbatim>\<open>catch\<close>: the candidates, and what was written with
  \<^verbatim>\<open>console.error\<close>.\<close>

definition candidates ::
  "entry_factory \<Rightarrow> fuzzy_search \<Rightarrow> (string \<Rightarrow> string) \<Rightarrow> FuzzyProduct list \<Rightarrow> string
     \<Rightarrow> element list \<times> string list" where
  "candidates entry fuzzySearch toLocaleLowerCase products filter_str =
     (case try_candidates entry fuzzySearch toLocaleLowerCase products filter_str of
        Inr cs \<Rightarrow> (cs, [])
      | Inl e \<Rightarrow> ([CAlert_warning e], [''Failed to compile candidates list: '' @ e]))"

text \<open>
  What the component function computes for the list: the candidates, whether the notice
  \<^verbatim>\<open>No modules match your search.\<close> is shown (\<^verbatim>\<open>candidates.length === 0\<close> with products)
  and whether the notice \<^verbatim>\<open>No modules are installed.\<close> is shown, and the console output.
\<close>

record candidates_view =
  shown_candidates :: "element list"
  no_match_notice :: bool
  none_installed_notice :: bool
  console_errors :: "string list"

text \<open>
  The component function from the merge to the list: the merge and the visibility filter
  run before the \<^verbatim>\<open>try\<close> block, so an exception of the merge leaves the function
  (\<open>Inl\<close>) and nothing is rendered.
\<close>

definition AddConnectionsPanel ::
  "entry_factory \<Rightarrow> fuzzy_search \<Rightarrow> (string \<Rightarrow> string)
     \<Rightarrow> NewClientModuleInfo option list \<Rightarrow> ModuleStoreListCacheEntry option list
     \<Rightarrow> bool \<Rightarrow> string \<Rightarrow> string + candidates_view" where
  "AddConnectionsPanel entry fuzzySearch toLocaleLowerCase modules storeList available filter_str =
     (case useAllConnectionProducts_runtime modules storeList of
        Inl e \<Rightarrow> Inl e
      | Inr allProducts \<Rightarrow>
          (let cs = candidates entry fuzzySearch toLocaleLowerCase
                      (typeProducts allProducts available) filter_str
           in Inr \<lparr> shown_candidates = fst cs,
                    no_match_notice = (length (fst cs) = 0 \<and> length allProducts > 0),
                    none_installed_notice = (length (fst cs) = 0 \<and> length allProducts = 0),
                    console_errors = snd cs \<rparr>))"

text \<open>The exception of the first search result whose entry the factory does not
  construct.\<close>

fun first_failure :: "entry_factory \<Rightarrow> FuzzyProduct list \<Rightarrow> string option" where
  "first_failure entry [] = None"
| "first_failure entry (moduleInfo # searchResults) =
     (case entry (name moduleInfo) moduleInfo of
        Inl e \<Rightarrow> Some e
      | Inr el \<Rightarrow> first_failure entry searchResults)"

section \<open>The remote info subscription\<close>

text \<open>Modelled from the spec: the module store info (subscription payload) with its
  last-updated timestamp and its optional update warning.\<close>

record ModuleStoreModuleInfoStore =
  lastUpdated :: int
  updateWarning :: "string option"

text \<open>The two requests sent with \<^verbatim>\<open>socketEmitPromise\<close>, with the module identifier.\<close>

datatype socket_call = Subscribe string | Unsubscribe string

text \<open>What the hook does to the outside, in the order in which it does it.\<close>

datatype action =
  SetModuleStoreCache "ModuleStoreModuleInfoStore option"
| EmitPromise socket_call
| SocketOn nat
| SocketOff nat
| ConsoleError string

text \<open>
  Each run of the effect with a module identifier creates a closure: its \<^verbatim>\<open>moduleId\<close>,
  its variable \<^verbatim>\<open>destroyed\<close>, and whether the promises of its two requests are still
  pending. The handler \<^verbatim>\<open>updateCache\<close> and the cleanup function of a run are named by
  the index of its closure.
\<close>

record effect_closure =
  closure_moduleId :: string
  destroyed :: bool
  subscribe_pending :: bool
  unsubscribe_pending :: bool

text \<open>
  The state of one instance of the hook: the state variable of \<^verbatim>\<open>useState\<close>, the
  closures created so far, the handlers registered on the socket for
  \<^verbatim>\<open>modules-store:info:data\<close>, the cleanup function that the framework holds from the
  last run of the effect, the module identifier of the last run (the dependency; the
  socket does not change), and whether the view is torn down.
\<close>

record hook_state =
  moduleStoreCache :: "ModuleStoreModuleInfoStore option"
  closures :: "effect_closure list"
  listeners :: "nat list"
  cleanup :: "nat option"
  deps :: "string option option"
  unmounted :: bool
  actions :: "action list"

definition initial_state :: hook_state where
  "initial_state =
     \<lparr> moduleStoreCache = None, closures = [], listeners = [], cleanup = None,
       deps = None, unmounted = False, actions = [] \<rparr>"

definition setModuleStoreCache ::
  "ModuleStoreModuleInfoStore option \<Rightarrow> hook_state \<Rightarrow> hook_state" where
  "setModuleStoreCache v s =
     s\<lparr>moduleStoreCache := v, actions := actions s @ [SetModuleStoreCache v]\<rparr>"

definition socketEmitPromise :: "socket_call \<Rightarrow> hook_state \<Rightarrow> hook_state" where
  "socketEmitPromise c s = s\<lparr>actions := actions s @ [EmitPromise c]\<rparr>"

definition socket_on :: "nat \<Rightarrow> hook_state \<Rightarrow> hook_state" where
  "socket_on i s = s\<lparr>listeners := listeners s @ [i], actions := actions s @ [SocketOn i]\<rparr>"

definition socket_off :: "nat \<Rightarrow> hook_state \<Rightarrow> hook_state" where
  "socket_off i s = s\<lparr>listeners := remove1 i (listeners s), actions := actions s @ [SocketOff i]\<rparr>"

definition console_error :: "string \<Rightarrow> hook_state \<Rightarrow> hook_state" where
  "console_error msg s = s\<lparr>actions := actions s @ [ConsoleError msg]\<rparr>"

text \<open>\<^verbatim>\<open>!moduleId\<close> holds for \<^verbatim>\<open>undefined\<close> and for the empty string.\<close>

fun absent :: "string option \<Rightarrow> bool" where
  "absent None = True"
| "absent (Some m) = (m = [])"

text \<open>
  The function passed to \<^verbatim>\<open>useEffect\<close>. Without a module identifier it resets the
  cache and returns no cleanup. Otherwise it creates its closure, resets the cache,
  sends the subscribe request, registers \<^verbatim>\<open>updateCache\<close> and returns its cleanup.
\<close>

definition effect :: "string option \<Rightarrow> hook_state \<Rightarrow> hook_state" where
  "effect moduleId s =
     (case moduleId of
        None \<Rightarrow> (setModuleStoreCache None s)\<lparr>cleanup := None\<rparr>
      | Some m \<Rightarrow>
          if m = [] then (setModuleStoreCache None s)\<lparr>cleanup := None\<rparr>
          else
            let i = length (closures s);
                s1 = s\<lparr>closures := closures s @
                          [\<lparr> closure_moduleId = m, destroyed = False,
                             subscribe_pending = True, unsubscribe_pending = False \<rparr>]\<rparr>;
                s2 = setModuleStoreCache None s1;
                s3 = socketEmitPromise (Subscribe m) s2;
                s4 = socket_on i s3
            in s4\<lparr>cleanup := Some i\<rparr>)"

text \<open>The cleanup function returned by run \<open>i\<close> of the effect.\<close>

definition run_cleanup :: "nat \<Rightarrow> hook_state \<Rightarrow> hook_state" where
  "run_cleanup i s =
     (if i < length (closures s) then
        let c = closures s ! i;
            s1 = s\<lparr>closures := (closures s)[i := c\<lparr>destroyed := True, unsubscribe_pending := True\<rparr>]\<rparr>;
            s2 = socket_off i s1;
            s3 = setModuleStoreCache None s2;
            s4 = socketEmitPromise (Unsubscribe (closure_moduleId c)) s3
        in s4
      else s)"

text \<open>The handler \<^verbatim>\<open>updateCache\<close> of run \<open>i\<close>.\<close>

definition updateCache ::
  "nat \<Rightarrow> string \<Rightarrow> ModuleStoreModuleInfoStore \<Rightarrow> hook_state \<Rightarrow> hook_state" where
  "updateCache i msgModuleId data s =
     (if i < length (closures s) then
        if destroyed (closures s ! i) then s
        else if msgModuleId \<noteq> closure_moduleId (closures s ! i) then s
        else setModuleStoreCache (Some data) s
      else s)"

text \<open>The \<^verbatim>\<open>then\<close> and \<^verbatim>\<open>catch\<close> callbacks of the subscribe request of run \<open>i\<close>, and
  the \<^verbatim>\<open>catch\<close> callback of its unsubscribe request.\<close>

definition subscribe_then :: "nat \<Rightarrow> ModuleStoreModuleInfoStore \<Rightarrow> hook_state \<Rightarrow> hook_state" where
  "subscribe_then i data s =
     (if destroyed (closures s ! i) then s else setModuleStoreCache (Some data) s)"

definition subscribe_catch :: "string \<Rightarrow> hook_state \<Rightarrow> hook_state" where
  "subscribe_catch err s = console_error (''Failed to subscribe to module store '' @ err) s"

definition unsubscribe_catch :: "string \<Rightarrow> hook_state \<Rightarrow> hook_state" where
  "unsubscribe_catch err s = console_error (''Failed to unsubscribe to module store '' @ err) s"

text \<open>
  What can happen to an instance of the hook. A render with a module identifier, the
  teardown of the view, the settling of the subscribe or unsubscribe promise of a run, and
  a pushed \<^verbatim>\<open>modules-store:info:data\<close> message. The events are handled one at a time, on
  one event loop.
\<close>

datatype event =
  Render "string option"
| Unmount
| SubscribeResolved nat ModuleStoreModuleInfoStore
| SubscribeRejected nat string
| UnsubscribeResolved nat
| UnsubscribeRejected nat string
| DataPush string ModuleStoreModuleInfoStore

text \<open>
  The component framework and the socket are external. What the hook relies on: the
  framework runs the effect after the first render and after each render whose
  dependency differs from that of the last run, with the cleanup of the last run first,
  and it runs that cleanup at teardown. A promise settles once, and its callbacks run
  then. A pushed message is given to the registered handlers in the order of their
  registration.
\<close>

definition set_subscribe_pending :: "nat \<Rightarrow> bool \<Rightarrow> hook_state \<Rightarrow> hook_state" where
  "set_subscribe_pending i b s =
     s\<lparr>closures := (closures s)[i := (closures s ! i)\<lparr>subscribe_pending := b\<rparr>]\<rparr>"

definition set_unsubscribe_pending :: "nat \<Rightarrow> bool \<Rightarrow> hook_state \<Rightarrow> hook_state" where
  "set_unsubscribe_pending i b s =
     s\<lparr>closures := (closures s)[i := (closures s ! i)\<lparr>unsubscribe_pending := b\<rparr>]\<rparr>"

fun step :: "hook_state \<Rightarrow> event \<Rightarrow> hook_state" where
  "step s (Render moduleId) =
     (if unmounted s \<or> deps s = Some moduleId then s
      else
        let s1 = (case cleanup s of None \<Rightarrow> s | Some i \<Rightarrow> run_cleanup i s)
        in (effect moduleId s1)\<lparr>deps := Some moduleId\<rparr>)"
| "step s Unmount =
     (if unmounted s then s
      else
        let s1 = (case cleanup s of None \<Rightarrow> s | Some i \<Rightarrow> run_cleanup i s)
        in s1\<lparr>cleanup := None, unmounted := True\<rparr>)"
| "step s (SubscribeResolved i data) =
     (if i < length (closures s) \<and> subscribe_pending (closures s ! i)
      then subscribe_then i data (set_subscribe_pending i False s) else s)"
| "step s (SubscribeRejected i err) =
     (if i < length (closures s) \<and> subscribe_pending (closures s ! i)
      then subscribe_catch err (set_subscribe_pending i False s) else s)"
| "step s (UnsubscribeResolved i) =
     (if i < length (closures s) \<and> unsubscribe_pending (closures s ! i)
      then set_unsubscribe_pending i False s else s)"
| "step s (UnsubscribeRejected i err) =
     (if i < length (closures s) \<and> unsubscribe_pending (closures s ! i)
      then unsubscribe_catch err (set_unsubscribe_pending i False s) else s)"
| "step s (DataPush msgModuleId data) =
     fold (\<lambda>i. updateCache i msgModuleId data) (listeners s) s"

text \<open>The state after a list of events, from the state before the first render.\<close>

definition run :: "event list \<Rightarrow> hook_state" where
  "run es = foldl step initial_state es"

text \<open>
  A call of \<^verbatim>\<open>useModuleStoreInfo\<close> in a render: it returns the state variable as the
  render finds it, and its effect runs after the render.
\<close>

definition useModuleStoreInfo ::
  "string option \<Rightarrow> hook_state \<Rightarrow> ModuleStoreModuleInfoStore option \<times> hook_state" where
  "useModuleStoreInfo moduleId s = (moduleStoreCache s, step s (Render moduleId))"

text \<open>The requests sent so far, and the subscriptions among them that no later
  unsubscribe request has ended.\<close>

fun emitted :: "action list \<Rightarrow> socket_call list" where
  "emitted [] = []"
| "emitted (EmitPromise c # as) = c # emitted as"
| "emitted (a # as) = emitted as"

fun outstanding :: "socket_call list \<Rightarrow> string list \<Rightarrow> string list" where
  "outstanding [] subs = subs"
| "outstanding (Subscribe m # cs) subs = outstanding cs (subs @ [m])"
| "outstanding (Unsubscribe m # cs) subs = outstanding cs (remove1 m subs)"

text \<open>Example payloads.\<close>

definition info_a :: ModuleStoreModuleInfoStore where
  "info_a = \<lparr> lastUpdated = 1, updateWarning = None \<rparr>"

definition info_b :: ModuleStoreModuleInfoStore where
  "info_b = \<lparr> lastUpdated = 2, updateWarning = Some ''old'' \<rparr>"

text \<open>
  What holds of the state between two events. The registered handlers are the handler of
  the run whose cleanup the framework holds, if there is one. The closures of all other
  runs are destroyed, that run's is not. That run was made for the current module
  identifier, which is present. Its subscription is the only one that no unsubscribe
  request has ended.
\<close>

definition hook_inv :: "hook_state \<Rightarrow> bool" where
  "hook_inv s \<longleftrightarrow>
     listeners s = (case cleanup s of None \<Rightarrow> [] | Some i \<Rightarrow> [i])
     \<and> (\<forall>j < length (closures s). destroyed (closures s ! j) \<longleftrightarrow> cleanup s \<noteq> Some j)
     \<and> (case cleanup s of
          None \<Rightarrow> unmounted s \<or> (case deps s of None \<Rightarrow> True | Some m \<Rightarrow> absent m)
        | Some i \<Rightarrow> i < length (closures s) \<and> \<not> unmounted s
                    \<and> closure_moduleId (closures s ! i) \<noteq> []
                    \<and> deps s = Some (Some (closure_moduleId (closures s ! i))))
     \<and> outstanding (emitted (actions s)) [] =
          (case cleanup s of None \<Rightarrow> [] | Some i \<Rightarrow> [closure_moduleId (closures s ! i)])"

text \<open>The state after the cleanup of the last run: no handler, no live closure, no
  subscription.\<close>

definition idle :: "hook_state \<Rightarrow> bool" where
  "idle s \<longleftrightarrow>
     listeners s = []
     \<and> (\<forall>j < length (closures s). destroyed (closures s ! j))
     \<and> outstanding (emitted (actions s)) [] = []"

definition after_cleanup :: "hook_state \<Rightarrow> hook_state" where
  "after_cleanup s = (case cleanup s of None \<Rightarrow> s | Some i \<Rightarrow> run_cleanup i s)"

text \<open>Two states that differ at most in the cached value, in the pending flags of the
  promises and in actions other than requests.\<close>

definition same_control :: "hook_state \<Rightarrow> hook_state \<Rightarrow> bool" where
  "same_control s s' \<longleftrightarrow>
     listeners s' = listeners s \<and> cleanup s' = cleanup s \<and> deps s' = deps s
     \<and> unmounted s' = unmounted s \<and> length (closures s') = length (closures s)
     \<and> (\<forall>j < length (closures s).
           destroyed (closures s' ! j) = destroyed (closures s ! j)
           \<and> closure_moduleId (closures s' ! j) = closure_moduleId (closures s ! j))
     \<and> emitted (actions s') = emitted (actions s)"

section \<open>Properties of the merge\<close>

lemma hyphen_in_product_key: "CHR ''-'' \<in> set (product_key i p)"
  by (simp add: product_key_def)

lemma obj_set_product_key:
  "obj_set (product_key i p) v dict = AList.update (product_key i p) v dict"
proof -
  have "product_key i p \<noteq> ''__proto__''"
    using hyphen_in_product_key [of i p] by auto
  then show ?thesis by (simp add: obj_set_def)
qed

lemma fold_fold_concat:
  "fold (\<lambda>x. fold (f x) (g x)) xs acc = fold (\<lambda>xy. f (fst xy) (snd xy)) (concat (map (\<lambda>x. map (Pair x) (g x)) xs)) acc"
proof (induction xs arbitrary: acc)
  case Nil
  show ?case by simp
next
  case (Cons x xs)
  have "fold (f x) (g x) acc = fold (\<lambda>xy. f (fst xy) (snd xy)) (map (Pair x) (g x)) acc"
    by (simp add: fold_map comp_def)
  with Cons show ?case by simp
qed

lemma add_installed_modules_pairs:
  "add_installed_modules ms acc = fold (\<lambda>mp. add_installed (fst mp) (snd mp)) (installed_pairs ms) acc"
  unfolding add_installed_modules_def installed_pairs_def by (rule fold_fold_concat)

lemma add_store_modules_pairs:
  "add_store_modules ss acc = fold (\<lambda>sp. add_store (fst sp) (snd sp)) (store_pairs ss) acc"
  unfolding add_store_modules_def store_pairs_def by (rule fold_fold_concat)

lemma map_of_add_installed:
  "map_of (add_installed m p acc) k =
     (if k = installed_key (m, p) then Some (installed_product m p) else map_of acc k)"
  by (simp add: add_installed_def obj_set_product_key installed_key_def update_conv')

lemma map_of_add_store:
  "map_of (add_store s p acc) k =
     (if k = store_key (s, p)
      then Some (case map_of acc k of Some e \<Rightarrow> e\<lparr>storeInfo := Some s\<rparr> | None \<Rightarrow> store_product s p)
      else map_of acc k)"
  by (simp add: add_store_def obj_set_product_key obj_get_def store_key_def update_conv' Let_def split: option.splits)

lemma map_of_fold_installed:
  "map_of (fold (\<lambda>mp. add_installed (fst mp) (snd mp)) xs acc) k =
     (case map_of (rev (map (\<lambda>mp. (installed_key mp, installed_product (fst mp) (snd mp))) xs)) k of
        Some e \<Rightarrow> Some e | None \<Rightarrow> map_of acc k)"
proof (induction xs arbitrary: acc)
  case Nil
  show ?case by simp
next
  case (Cons x xs)
  show ?case
    by (cases x) (simp add: Cons.IH map_of_add_installed map_add_def split: option.splits)
qed

lemma map_of_fold_store:
  "map_of (fold (\<lambda>sp. add_store (fst sp) (snd sp)) ys acc) k =
     (case map_of acc k of
        Some e \<Rightarrow> Some (case map_of (rev (map (\<lambda>sp. (store_key sp, fst sp)) ys)) k of
                          None \<Rightarrow> e | Some s \<Rightarrow> e\<lparr>storeInfo := Some s\<rparr>)
      | None \<Rightarrow> (case map_of (map (\<lambda>sp. (store_key sp, store_product (fst sp) (snd sp))) ys) k of
                   None \<Rightarrow> None
                 | Some e \<Rightarrow> Some (e\<lparr>storeInfo := map_of (rev (map (\<lambda>sp. (store_key sp, fst sp)) ys)) k\<rparr>)))"
proof (induction ys arbitrary: acc)
  case Nil
  show ?case by (simp split: option.splits)
next
  case (Cons y ys)
  show ?case
    by (cases y) (simp add: Cons.IH map_of_add_store map_add_def store_product_def split: option.splits)
qed

lemma map_of_allProducts_of: "map_of (allProducts_of ms ss) k = merged_record ms ss k"
  unfolding allProducts_of_def add_store_modules_pairs add_installed_modules_pairs
    merged_record_def installed_record_def store_created_def store_attached_def
  by (simp add: map_of_fold_store map_of_fold_installed split: option.splits)

lemma product_key_no_index: "array_index (product_key i p) = None"
proof -
  have "\<not> list_all is_digit (product_key i p)"
    by (simp add: product_key_def is_digit_def)
  then show ?thesis by (simp add: array_index_def)
qed

lemma Object_entries_no_index:
  assumes "\<forall>k \<in> fst ` set dict. array_index k = None"
  shows "Object_entries dict = dict"
proof -
  have "filter (\<lambda>e. array_index (fst e) \<noteq> None) dict = []"
    using assms by (auto simp: filter_empty_conv)
  moreover have "filter (\<lambda>e. array_index (fst e) = None) dict = dict"
    using assms by (auto simp: filter_id_conv)
  ultimately show ?thesis by (simp add: Object_entries_def)
qed

lemma dom_add_installed:
  "fst ` set (add_installed m p acc) = insert (installed_key (m, p)) (fst ` set acc)"
  by (simp add: add_installed_def obj_set_product_key installed_key_def dom_update)

lemma distinct_add_installed:
  "distinct (map fst acc) \<Longrightarrow> distinct (map fst (add_installed m p acc))"
  by (simp add: add_installed_def obj_set_product_key distinct_update)

lemma dom_add_store:
  "fst ` set (add_store s p acc) = insert (store_key (s, p)) (fst ` set acc)"
  by (simp add: add_store_def obj_set_product_key obj_get_def store_key_def dom_update Let_def
      split: option.splits)

lemma distinct_add_store:
  "distinct (map fst acc) \<Longrightarrow> distinct (map fst (add_store s p acc))"
  by (simp add: add_store_def obj_set_product_key distinct_update Let_def split: option.splits)

lemma dom_fold_installed:
  "fst ` set (fold (\<lambda>mp. add_installed (fst mp) (snd mp)) xs acc) =
     fst ` set acc \<union> installed_key ` set xs"
  by (induction xs arbitrary: acc) (simp_all add: dom_add_installed)

lemma distinct_fold_installed:
  "distinct (map fst acc) \<Longrightarrow>
     distinct (map fst (fold (\<lambda>mp. add_installed (fst mp) (snd mp)) xs acc))"
  by (induction xs arbitrary: acc) (simp_all add: distinct_add_installed)

lemma dom_fold_store:
  "fst ` set (fold (\<lambda>sp. add_store (fst sp) (snd sp)) ys acc) =
     fst ` set acc \<union> store_key ` set ys"
  by (induction ys arbitrary: acc) (simp_all add: dom_add_store)

lemma distinct_fold_store:
  "distinct (map fst acc) \<Longrightarrow>
     distinct (map fst (fold (\<lambda>sp. add_store (fst sp) (snd sp)) ys acc))"
  by (induction ys arbitrary: acc) (simp_all add: distinct_add_store)

lemma keys_allProducts_of:
  "fst ` set (allProducts_of ms ss) =
     installed_key ` set (installed_pairs ms) \<union> store_key ` set (store_pairs ss)"
  unfolding allProducts_of_def add_store_modules_pairs add_installed_modules_pairs
  by (simp add: dom_fold_store dom_fold_installed)

lemma distinct_allProducts_of: "distinct (map fst (allProducts_of ms ss))"
  unfolding allProducts_of_def add_store_modules_pairs add_installed_modules_pairs
  by (simp add: distinct_fold_store distinct_fold_installed)

lemma useAllConnectionProducts_values:
  "useAllConnectionProducts ms ss = map snd (allProducts_of ms ss)"
proof -
  have "\<forall>k \<in> fst ` set (allProducts_of ms ss). array_index k = None"
  proof
    fix k assume "k \<in> fst ` set (allProducts_of ms ss)"
    then have "k \<in> installed_key ` set (installed_pairs ms) \<union> store_key ` set (store_pairs ss)"
      by (simp only: keys_allProducts_of)
    then show "array_index k = None"
      by (auto simp: installed_key_def store_key_def product_key_no_index)
  qed
  then show ?thesis
    by (simp add: useAllConnectionProducts_def Object_values_def Object_entries_no_index)
qed

lemma set_useAllConnectionProducts:
  "set (useAllConnectionProducts ms ss) = {e. \<exists>k. merged_record ms ss k = Some e}"
proof -
  have "set (useAllConnectionProducts ms ss) = ran (map_of (allProducts_of ms ss))"
    by (simp add: useAllConnectionProducts_values ran_distinct distinct_allProducts_of)
  then show ?thesis
    by (simp add: ran_def map_of_allProducts_of)
qed

lemma length_useAllConnectionProducts:
  "length (useAllConnectionProducts ms ss) =
     card (set (map installed_key (installed_pairs ms)) \<union> set (map store_key (store_pairs ss)))"
proof -
  have "length (useAllConnectionProducts ms ss) = length (map fst (allProducts_of ms ss))"
    by (simp add: useAllConnectionProducts_values)
  also have "\<dots> = card (set (map fst (allProducts_of ms ss)))"
    using distinct_allProducts_of [of ms ss] by (simp only: distinct_card)
  also have "\<dots> = card (fst ` set (allProducts_of ms ss))"
    by simp
  finally show ?thesis by (simp add: keys_allProducts_of)
qed

lemma installed_product_fields:
  "id_fp (installed_product m p) = id_base (baseInfo m)"
  "installedInfo (installed_product m p) = Some m"
  "storeInfo (installed_product m p) = None"
  "product (installed_product m p) = p"
  "name (installed_product m p) = name_base (baseInfo m)"
  "manufacturer (installed_product m p) = manufacturer_base (baseInfo m)"
  "shortname (installed_product m p) = shortname_base (baseInfo m)"
  by (simp_all add: installed_product_def)

lemma store_product_fields:
  "id_fp (store_product s p) = id_store s"
  "installedInfo (store_product s p) = None"
  "storeInfo (store_product s p) = Some s"
  "product (store_product s p) = p"
  "name (store_product s p) = name_store s"
  "manufacturer (store_product s p) = manufacturer_store s"
  "shortname (store_product s p) = shortname_store s"
  by (simp_all add: store_product_def)

lemma installed_record_SomeD:
  "installed_record ms k = Some e \<Longrightarrow>
     \<exists>mp \<in> set (installed_pairs ms). k = installed_key mp \<and> e = installed_product (fst mp) (snd mp)"
  unfolding installed_record_def by (auto dest!: map_of_SomeD)

lemma store_created_SomeD:
  "store_created ss k = Some e \<Longrightarrow>
     \<exists>sp \<in> set (store_pairs ss). k = store_key sp \<and> e = store_product (fst sp) (snd sp)"
  unfolding store_created_def by (auto dest!: map_of_SomeD)

lemma store_attached_SomeD:
  "store_attached ss k = Some s \<Longrightarrow> \<exists>sp \<in> set (store_pairs ss). k = store_key sp \<and> s = fst sp"
  unfolding store_attached_def by (auto dest!: map_of_SomeD)

lemma installed_record_None_iff:
  "installed_record ms k = None \<longleftrightarrow> k \<notin> set (map installed_key (installed_pairs ms))"
  unfolding installed_record_def by (simp add: map_of_eq_None_iff image_image)

lemma store_created_None_iff:
  "store_created ss k = None \<longleftrightarrow> k \<notin> set (map store_key (store_pairs ss))"
  unfolding store_created_def by (simp add: map_of_eq_None_iff image_image)

lemma store_attached_None_iff:
  "store_attached ss k = None \<longleftrightarrow> k \<notin> set (map store_key (store_pairs ss))"
  unfolding store_attached_def by (simp add: map_of_eq_None_iff image_image)

lemma merged_record_key:
  assumes "merged_record ms ss k = Some e"
  shows "k = product_key (id_fp e) (product e)"
proof (cases "installed_record ms k")
  case (Some e0)
  then obtain mp where "k = installed_key mp" "e0 = installed_product (fst mp) (snd mp)"
    using installed_record_SomeD by blast
  with Some assms show ?thesis
    by (auto simp: merged_record_def installed_key_def installed_product_fields split: option.splits)
next
  case None
  with assms obtain e0 where e0: "store_created ss k = Some e0" "e = e0\<lparr>storeInfo := store_attached ss k\<rparr>"
    by (auto simp: merged_record_def split: option.splits)
  then obtain sp where "k = store_key sp" "e0 = store_product (fst sp) (snd sp)"
    using store_created_SomeD by blast
  with e0 show ?thesis
    by (simp add: store_key_def store_product_fields)
qed

lemma merged_record_infos:
  assumes "merged_record ms ss k = Some e"
  shows "(installedInfo e \<noteq> None \<longleftrightarrow> k \<in> set (map installed_key (installed_pairs ms)))
       \<and> (storeInfo e \<noteq> None \<longleftrightarrow> k \<in> set (map store_key (store_pairs ss)))"
proof (cases "installed_record ms k")
  case (Some e0)
  then obtain mp where mp: "e0 = installed_product (fst mp) (snd mp)"
    using installed_record_SomeD by blast
  have in_keys: "k \<in> set (map installed_key (installed_pairs ms))"
    using Some installed_record_None_iff [of ms k] by simp
  show ?thesis
  proof (cases "store_attached ss k")
    case None
    with Some assms mp in_keys store_attached_None_iff [of ss k] show ?thesis
      by (auto simp: merged_record_def installed_product_fields)
  next
    case (Some s)
    with \<open>installed_record ms k = Some e0\<close> assms mp in_keys store_attached_None_iff [of ss k]
    show ?thesis
      by (auto simp: merged_record_def installed_product_fields)
  qed
next
  case None
  with assms obtain e0 where e0: "store_created ss k = Some e0" "e = e0\<lparr>storeInfo := store_attached ss k\<rparr>"
    by (auto simp: merged_record_def split: option.splits)
  then obtain sp where sp: "e0 = store_product (fst sp) (snd sp)"
    using store_created_SomeD by blast
  have "k \<in> set (map store_key (store_pairs ss))"
    using e0(1) store_created_None_iff [of ss k] by simp
  moreover from this have "store_attached ss k \<noteq> None"
    using store_attached_None_iff [of ss k] by simp
  moreover have "k \<notin> set (map installed_key (installed_pairs ms))"
    using None installed_record_None_iff [of ms k] by simp
  ultimately show ?thesis
    using e0(2) sp by (simp add: store_product_fields)
qed

lemma merge_eval:
  "useAllConnectionProducts [m] [s] =
     map snd (fold (add_store s) (products_store s) (fold (add_installed m) (products_base (baseInfo m)) []))"
  by (simp add: useAllConnectionProducts_values allProducts_of_def add_store_modules_def
      add_installed_modules_def)

lemma scenario_eval:
  fixes m :: NewClientModuleInfo and s :: ModuleStoreListCacheEntry
  assumes "id_base (baseInfo m) = ''x''" "products_base (baseInfo m) = [''p1'']"
    and "id_store s = ''x''" "products_store s = [''p1'', ''p2'']"
  shows "useAllConnectionProducts [m] [s] =
           [(installed_product m ''p1'')\<lparr>storeInfo := Some s\<rparr>, store_product s ''p2'']"
  using assms
  by (simp add: useAllConnectionProducts_values allProducts_of_def add_store_modules_def
      add_installed_modules_def add_store_def add_installed_def obj_set_def obj_get_def
      product_key_def)

section \<open>Properties of the text filter\<close>

lemma filterProducts_query:
  "filter_str \<noteq> [] \<Longrightarrow>
     filterProducts fuzzySearch allProducts filter_str =
       map_sum id (map obj) (fuzzySearch filter_str allProducts filter_options)"
  by (simp add: filterProducts_def split: sum.splits)

lemma fuzzy_field_keys:
  "fuzzy_field ''product'' p = Some (product p)"
  "fuzzy_field ''name'' p = Some (name p)"
  "fuzzy_field ''manufacturer'' p = Some (manufacturer p)"
  "fuzzy_field ''keywords'' p = Some (keywords_fp p)"
  by (simp_all add: fuzzy_field_def)

lemma keys_filter_options:
  "set (keys filter_options) = {''product'', ''name'', ''manufacturer'', ''keywords''}"
  by (simp add: filter_options_def)

lemma ranking_contractD:
  assumes "ranking_contract matches fuzzySearch"
  shows "\<exists>results. fuzzySearch query items opts = Inr results
           \<and> (\<forall>r \<in> set results.
                 obj r \<in> set items
                 \<and> (\<exists>k \<in> set (keys opts). \<exists>t. fuzzy_field k (obj r) = Some t \<and> matches query t))"
proof -
  note c = assms [unfolded ranking_contract_def]
  show ?thesis
    by (rule c [THEN spec, THEN spec, THEN spec])
qed

lemma filter_options_hit:
  assumes "k \<in> set (keys filter_options)" and "fuzzy_field k p = Some t" and "matches q t"
  shows "matches q (product p) \<or> matches q (name p)
         \<or> matches q (manufacturer p) \<or> matches q (keywords_fp p)"
proof -
  from assms(1) have "k = ''product'' \<or> k = ''name'' \<or> k = ''manufacturer'' \<or> k = ''keywords''"
    by (simp only: keys_filter_options insert_iff empty_iff simp_thms)
  then show ?thesis
  proof (elim disjE)
    assume "k = ''product''"
    with assms(2) have "t = product p" by (simp only: fuzzy_field_keys option.inject)
    with assms(3) show ?thesis by blast
  next
    assume "k = ''name''"
    with assms(2) have "t = name p" by (simp only: fuzzy_field_keys option.inject)
    with assms(3) show ?thesis by blast
  next
    assume "k = ''manufacturer''"
    with assms(2) have "t = manufacturer p" by (simp only: fuzzy_field_keys option.inject)
    with assms(3) show ?thesis by blast
  next
    assume "k = ''keywords''"
    with assms(2) have "t = keywords_fp p" by (simp only: fuzzy_field_keys option.inject)
    with assms(3) show ?thesis by blast
  qed
qed

lemma filterProducts_no_match:
  assumes ne: "filter_str \<noteq> []" and c: "ranking_contract matches fuzzySearch"
    and nomatch: "\<forall>p \<in> set allProducts.
              \<not> matches filter_str (product p) \<and> \<not> matches filter_str (name p)
              \<and> \<not> matches filter_str (manufacturer p) \<and> \<not> matches filter_str (keywords_fp p)"
  shows "filterProducts fuzzySearch allProducts filter_str = Inr []"
proof -
  from ranking_contractD [OF c, of filter_str allProducts filter_options]
  obtain results where r: "fuzzySearch filter_str allProducts filter_options = Inr results"
    and res: "\<forall>r \<in> set results. obj r \<in> set allProducts
           \<and> (\<exists>k \<in> set (keys filter_options). \<exists>t. fuzzy_field k (obj r) = Some t \<and> matches filter_str t)"
    by blast
  have "results = []"
  proof (cases results)
    case Nil
    then show ?thesis .
  next
    case (Cons x xs)
    then have xin: "x \<in> set results" by simp
    with res obtain k t where "obj x \<in> set allProducts" "k \<in> set (keys filter_options)"
      "fuzzy_field k (obj x) = Some t" "matches filter_str t"
      by blast
    with filter_options_hit [of k "obj x" t matches filter_str] nomatch
    show ?thesis by blast
  qed
  with r show ?thesis
    by (simp add: filterProducts_query [OF ne])
qed

lemma filterProducts_no_items:
  assumes c: "ranking_contract matches fuzzySearch"
  shows "filterProducts fuzzySearch [] filter_str = Inr []"
proof -
  from ranking_contractD [OF c, of filter_str "[]" filter_options]
  obtain results where r: "fuzzySearch filter_str [] filter_options = Inr results"
    and res: "\<forall>r \<in> set results. obj r \<in> set ([] :: FuzzyProduct list)"
    by blast
  have "results = []"
  proof (cases results)
    case Nil
    then show ?thesis .
  next
    case (Cons x xs)
    then have "x \<in> set results" by simp
    with res have "obj x \<in> set ([] :: FuzzyProduct list)" by blast
    then show ?thesis by simp
  qed
  with r show ?thesis
    by (simp add: filterProducts_def)
qed

lemma exact_search_contract: "ranking_contract (=) exact_search"
  unfolding ranking_contract_def exact_search_def by auto


section \<open>Properties of the candidate list\<close>

lemma those_map_Some: "those (map Some xs) = Some xs"
  by (induction xs) simp_all

lemma those_None: "None \<in> set xs \<Longrightarrow> those xs = None"
  by (induction xs) (auto split: option.splits)

lemma useAllConnectionProducts_runtime_malformed:
  "None \<in> set modules \<or> None \<in> set storeList \<Longrightarrow>
     useAllConnectionProducts_runtime modules storeList = Inl ''TypeError''"
  by (auto simp: useAllConnectionProducts_runtime_def those_None split: option.splits)

lemma useAllConnectionProducts_runtime_wellformed:
  "useAllConnectionProducts_runtime (map Some ms) (map Some ss) =
     Inr (useAllConnectionProducts ms ss)"
  by (simp add: useAllConnectionProducts_runtime_def those_map_Some)

lemma build_candidatesObj_Inl:
  "build_candidatesObj entry rs candidatesObj = Inl e \<longleftrightarrow> first_failure entry rs = Some e"
  by (induction rs arbitrary: candidatesObj) (simp_all split: sum.splits)

lemma build_candidatesObj_Inr:
  "first_failure entry rs = None \<Longrightarrow> \<exists>ob. build_candidatesObj entry rs candidatesObj = Inr ob"
  by (induction rs arbitrary: candidatesObj) (simp_all split: sum.splits)

lemma set_update_subset: "set (AList.update k v al) \<subseteq> insert (k, v) (set al)"
  by (induction al) auto

lemma set_obj_set_subset: "set (obj_set k v dict) \<subseteq> insert (k, v) (set dict)"
  using set_update_subset [of k v dict] by (auto simp: obj_set_def)

lemma build_candidatesObj_values:
  "build_candidatesObj entry rs candidatesObj = Inr ob \<Longrightarrow>
     snd ` set ob \<subseteq> snd ` set candidatesObj \<union> {el. \<exists>r \<in> set rs. entry (name r) r = Inr el}"
proof (induction rs arbitrary: candidatesObj)
  case Nil
  then show ?case by simp
next
  case (Cons r rs)
  from Cons.prems obtain el where el: "entry (name r) r = Inr el"
    and rest: "build_candidatesObj entry rs (obj_set (name r) el candidatesObj) = Inr ob"
    by (auto split: sum.splits)
  from Cons.IH [OF rest]
  have "snd ` set ob \<subseteq> snd ` set (obj_set (name r) el candidatesObj)
          \<union> {el. \<exists>r \<in> set rs. entry (name r) r = Inr el}" .
  moreover have "snd ` set (obj_set (name r) el candidatesObj) \<subseteq> insert el (snd ` set candidatesObj)"
    using set_obj_set_subset [of "name r" el candidatesObj] by auto
  ultimately show ?case using el by auto
qed

lemma set_Object_entries: "set (Object_entries dict) = set dict"
  by (auto simp: Object_entries_def)

lemma try_candidates_Inl:
  "try_candidates entry fuzzySearch lower ps q = Inl e \<longleftrightarrow>
     (q \<noteq> [] \<and> fuzzySearch q ps filter_options = Inl e)
     \<or> (\<exists>rs. filterProducts fuzzySearch ps q = Inr rs \<and> first_failure entry rs = Some e)"
proof (cases "filterProducts fuzzySearch ps q")
  case (Inl e')
  then have "q \<noteq> [] \<and> fuzzySearch q ps filter_options = Inl e'"
    by (auto simp: filterProducts_def split: if_splits sum.splits)
  with Inl show ?thesis by (auto simp: try_candidates_def)
next
  case (Inr rs)
  then have "\<not> (q \<noteq> [] \<and> fuzzySearch q ps filter_options = Inl e)"
    by (auto simp: filterProducts_def split: if_splits sum.splits)
  moreover have "try_candidates entry fuzzySearch lower ps q = Inl e
      \<longleftrightarrow> build_candidatesObj entry rs [] = Inl e"
    using Inr by (cases "build_candidatesObj entry rs []") (simp_all add: try_candidates_def)
  moreover have "(\<exists>rs'. filterProducts fuzzySearch ps q = Inr rs' \<and> first_failure entry rs' = Some e)
      \<longleftrightarrow> first_failure entry rs = Some e"
    using Inr by simp
  ultimately show ?thesis
    by (simp only: build_candidatesObj_Inl simp_thms)
qed

lemma try_candidates_Inr:
  assumes "filterProducts fuzzySearch ps q = Inr rs" and "first_failure entry rs = None"
  shows "\<exists>cs. try_candidates entry fuzzySearch lower ps q = Inr cs
           \<and> set cs \<subseteq> {el. \<exists>r \<in> set rs. entry (name r) r = Inr el}"
proof -
  from build_candidatesObj_Inr [OF assms(2), of "[]"]
  obtain ob where ob: "build_candidatesObj entry rs [] = Inr ob" by blast
  from build_candidatesObj_values [OF ob]
  have v: "snd ` set ob \<subseteq> {el. \<exists>r \<in> set rs. entry (name r) r = Inr el}" by simp
  show ?thesis
  proof (cases "q = []")
    case True
    with assms(1) ob v show ?thesis
      by (simp add: try_candidates_def set_Object_entries)
  next
    case False
    with assms(1) ob v show ?thesis
      by (simp add: try_candidates_def set_Object_entries)
  qed
qed

lemma AddConnectionsPanel_wellformed:
  "AddConnectionsPanel entry fuzzySearch lower (map Some ms) (map Some ss) available q =
     (let cs = candidates entry fuzzySearch lower
                 (typeProducts (useAllConnectionProducts ms ss) available) q
      in Inr \<lparr> shown_candidates = fst cs,
               no_match_notice = (length (fst cs) = 0 \<and> length (useAllConnectionProducts ms ss) > 0),
               none_installed_notice = (length (fst cs) = 0 \<and> length (useAllConnectionProducts ms ss) = 0),
               console_errors = snd cs \<rparr>)"
  by (simp add: AddConnectionsPanel_def useAllConnectionProducts_runtime_wellformed)

lemma foo_products:
  "useAllConnectionProducts [foo_installed] [foo_store] =
     [(installed_product foo_installed ''p1'')\<lparr>storeInfo := Some foo_store\<rparr>,
      store_product foo_store ''p2'']"
  by (simp add: scenario_eval foo_installed_def foo_store_def)

lemma foo_typeProducts:
  "typeProducts (useAllConnectionProducts [foo_installed] [foo_store]) True =
     [(installed_product foo_installed ''p1'')\<lparr>storeInfo := Some foo_store\<rparr>,
      store_product foo_store ''p2'']"
  by (simp add: foo_products typeProducts_def)

section \<open>Properties of the subscription\<close>

lemma emitted_append: "emitted (xs @ ys) = emitted xs @ emitted ys"
  by (induction xs rule: emitted.induct) simp_all

lemma outstanding_append:
  "outstanding (xs @ ys) subs = outstanding ys (outstanding xs subs)"
  by (induction xs subs rule: outstanding.induct) simp_all

lemma step_Render_after_cleanup:
  "step s (Render m) =
     (if unmounted s \<or> deps s = Some m then s else (effect m (after_cleanup s))\<lparr>deps := Some m\<rparr>)"
  by (simp add: after_cleanup_def)

lemma step_Unmount_after_cleanup:
  "step s Unmount =
     (if unmounted s then s else (after_cleanup s)\<lparr>cleanup := None, unmounted := True\<rparr>)"
  by (simp add: after_cleanup_def)

lemma run_cleanup_fields:
  assumes "i < length (closures s)"
  shows "moduleStoreCache (run_cleanup i s) = None"
    and "closures (run_cleanup i s) =
           (closures s)[i := (closures s ! i)\<lparr>destroyed := True, unsubscribe_pending := True\<rparr>]"
    and "listeners (run_cleanup i s) = remove1 i (listeners s)"
    and "cleanup (run_cleanup i s) = cleanup s"
    and "deps (run_cleanup i s) = deps s"
    and "unmounted (run_cleanup i s) = unmounted s"
    and "actions (run_cleanup i s) =
           actions s @ [SocketOff i, SetModuleStoreCache None,
                        EmitPromise (Unsubscribe (closure_moduleId (closures s ! i)))]"
  using assms
  by (simp_all add: run_cleanup_def Let_def socket_off_def setModuleStoreCache_def
      socketEmitPromise_def)

lemma effect_absent_fields:
  assumes "absent m"
  shows "moduleStoreCache (effect m s) = None"
    and "closures (effect m s) = closures s"
    and "listeners (effect m s) = listeners s"
    and "cleanup (effect m s) = None"
    and "deps (effect m s) = deps s"
    and "unmounted (effect m s) = unmounted s"
    and "actions (effect m s) = actions s @ [SetModuleStoreCache None]"
  using assms
  by (cases m; simp add: effect_def setModuleStoreCache_def)+

lemma effect_present_fields:
  assumes "m \<noteq> []"
  shows "moduleStoreCache (effect (Some m) s) = None"
    and "closures (effect (Some m) s) = closures s @
           [\<lparr> closure_moduleId = m, destroyed = False,
              subscribe_pending = True, unsubscribe_pending = False \<rparr>]"
    and "listeners (effect (Some m) s) = listeners s @ [length (closures s)]"
    and "cleanup (effect (Some m) s) = Some (length (closures s))"
    and "deps (effect (Some m) s) = deps s"
    and "unmounted (effect (Some m) s) = unmounted s"
    and "actions (effect (Some m) s) =
           actions s @ [SetModuleStoreCache None, EmitPromise (Subscribe m),
                        SocketOn (length (closures s))]"
  using assms
  by (simp_all add: effect_def Let_def socket_on_def setModuleStoreCache_def
      socketEmitPromise_def)

lemma idle_after_cleanup:
  assumes "hook_inv s"
  shows "idle (after_cleanup s)"
proof (cases "cleanup s")
  case None
  with assms show ?thesis
    by (simp add: hook_inv_def idle_def after_cleanup_def)
next
  case (Some i)
  with assms have i: "i < length (closures s)"
    by (simp add: hook_inv_def)
  from assms Some have l: "listeners s = [i]"
    and d: "\<forall>j < length (closures s). destroyed (closures s ! j) \<longleftrightarrow> i \<noteq> j"
    and o: "outstanding (emitted (actions s)) [] = [closure_moduleId (closures s ! i)]"
    by (auto simp: hook_inv_def)
  have "listeners (after_cleanup s) = []"
    using Some l by (simp add: after_cleanup_def run_cleanup_fields [OF i])
  moreover have "\<forall>j < length (closures (after_cleanup s)). destroyed (closures (after_cleanup s) ! j)"
    using Some d by (auto simp: after_cleanup_def run_cleanup_fields [OF i] nth_list_update)
  moreover have "outstanding (emitted (actions (after_cleanup s))) [] = []"
    using Some o
    by (simp add: after_cleanup_def run_cleanup_fields [OF i] emitted_append outstanding_append)
  ultimately show ?thesis by (simp add: idle_def)
qed

lemma after_cleanup_unmounted: "hook_inv s \<Longrightarrow> unmounted (after_cleanup s) = unmounted s"
  by (cases "cleanup s") (simp_all add: after_cleanup_def hook_inv_def run_cleanup_fields)

lemma hook_inv_effect:
  assumes "idle s" and "\<not> unmounted s"
  shows "hook_inv ((effect m s)\<lparr>deps := Some m\<rparr>)"
proof (cases "absent m")
  case True
  with assms show ?thesis
    by (simp add: hook_inv_def idle_def effect_absent_fields emitted_append outstanding_append)
next
  case False
  then obtain a where m: "m = Some a" "a \<noteq> []" by (cases m) auto
  from assms m(2) show ?thesis
    unfolding m(1) hook_inv_def idle_def
    by (simp add: effect_present_fields [OF m(2)] emitted_append outstanding_append nth_append)
qed

lemma hook_inv_unmount:
  assumes "idle s"
  shows "hook_inv (s\<lparr>cleanup := None, unmounted := True\<rparr>)"
  using assms by (simp add: hook_inv_def idle_def)

lemma hook_inv_initial: "hook_inv initial_state"
  by (simp add: hook_inv_def initial_state_def)

lemma same_control_refl: "same_control s s"
  by (simp add: same_control_def)

lemma same_control_trans: "same_control s t \<Longrightarrow> same_control t u \<Longrightarrow> same_control s u"
  by (simp add: same_control_def)

lemma same_control_setModuleStoreCache: "same_control s (setModuleStoreCache v s)"
  by (simp add: same_control_def setModuleStoreCache_def emitted_append)

lemma same_control_console_error: "same_control s (console_error msg s)"
  by (simp add: same_control_def console_error_def emitted_append)

lemma nth_update_same_field:
  assumes "\<And>x. f (g x) = f x" and "j < length xs"
  shows "f (xs[i := g (xs ! i)] ! j) = f (xs ! j)"
  by (cases "i = j") (simp_all add: assms)

lemma same_control_set_subscribe_pending: "same_control s (set_subscribe_pending i b s)"
  proof -
  have "f ((closures s)[i := (closures s ! i)\<lparr>subscribe_pending := b\<rparr>] ! j) = f (closures s ! j)"
    if "\<And>x. f (x\<lparr>subscribe_pending := b\<rparr>) = f x" and "j < length (closures s)" for f :: "effect_closure \<Rightarrow> 'a" and j
    using that by (rule nth_update_same_field)
  from this [of destroyed] this [of closure_moduleId] show ?thesis
    by (simp add: same_control_def set_subscribe_pending_def)
qed

lemma same_control_set_unsubscribe_pending: "same_control s (set_unsubscribe_pending i b s)"
  proof -
  have "f ((closures s)[i := (closures s ! i)\<lparr>unsubscribe_pending := b\<rparr>] ! j) = f (closures s ! j)"
    if "\<And>x. f (x\<lparr>unsubscribe_pending := b\<rparr>) = f x" and "j < length (closures s)" for f :: "effect_closure \<Rightarrow> 'a" and j
    using that by (rule nth_update_same_field)
  from this [of destroyed] this [of closure_moduleId] show ?thesis
    by (simp add: same_control_def set_unsubscribe_pending_def)
qed

lemma same_control_updateCache: "same_control s (updateCache i m d s)"
  by (simp add: updateCache_def same_control_refl same_control_setModuleStoreCache)

lemma same_control_subscribe_then: "same_control s (subscribe_then i d s)"
  by (simp add: subscribe_then_def same_control_refl same_control_setModuleStoreCache)

lemma same_control_fold_updateCache:
  "same_control s (fold (\<lambda>i. updateCache i m d) is s)"
proof (induction "is" arbitrary: s)
  case Nil
  show ?case by (simp add: same_control_refl)
next
  case (Cons i "is")
  have "same_control s (updateCache i m d s)" by (rule same_control_updateCache)
  moreover have "same_control (updateCache i m d s) (fold (\<lambda>i. updateCache i m d) is (updateCache i m d s))"
    by (rule Cons.IH)
  ultimately show ?case by (simp add: same_control_trans)
qed

lemma same_control_step:
  assumes "\<And>m. e \<noteq> Render m" and "e \<noteq> Unmount"
  shows "same_control s (step s e)"
proof (cases e)
  case (Render m)
  with assms(1) [of m] show ?thesis by simp
next
  case Unmount
  with assms(2) show ?thesis by simp
next
  case (SubscribeResolved i d)
  then show ?thesis
    using same_control_trans [OF same_control_set_subscribe_pending same_control_subscribe_then]
    by (simp add: same_control_refl)
next
  case (SubscribeRejected i err)
  then show ?thesis
    using same_control_trans [OF same_control_set_subscribe_pending same_control_console_error]
    by (simp add: same_control_refl subscribe_catch_def)
next
  case (UnsubscribeResolved i)
  then show ?thesis
    by (simp add: same_control_refl same_control_set_unsubscribe_pending)
next
  case (UnsubscribeRejected i err)
  then show ?thesis
    using same_control_trans [OF same_control_set_unsubscribe_pending same_control_console_error]
    by (simp add: same_control_refl unsubscribe_catch_def)
next
  case (DataPush m d)
  then show ?thesis by (simp add: same_control_fold_updateCache)
qed

lemma hook_inv_same_control:
  assumes "hook_inv s" and "same_control s s'"
  shows "hook_inv s'"
proof (cases "cleanup s")
  case None
  with assms show ?thesis
    by (simp add: hook_inv_def same_control_def)
next
  case (Some i)
  with assms have "i < length (closures s)" by (simp add: hook_inv_def)
  with assms Some show ?thesis
    by (simp add: hook_inv_def same_control_def)
qed

lemma hook_inv_step:
  assumes "hook_inv s"
  shows "hook_inv (step s e)"
proof (cases e)
  case (Render m)
  show ?thesis
  proof (cases "unmounted s \<or> deps s = Some m")
    case True
    with assms Render show ?thesis by simp
  next
    case False
    then have "\<not> unmounted (after_cleanup s)"
      using after_cleanup_unmounted [OF assms] by simp
    with idle_after_cleanup [OF assms] have "hook_inv ((effect m (after_cleanup s))\<lparr>deps := Some m\<rparr>)"
      by (rule hook_inv_effect)
    with False Render show ?thesis
      by (simp only: step_Render_after_cleanup if_False)
  qed
next
  case Unmount
  show ?thesis
  proof (cases "unmounted s")
    case True
    with assms Unmount show ?thesis by simp
  next
    case False
    from idle_after_cleanup [OF assms]
    have "hook_inv ((after_cleanup s)\<lparr>cleanup := None, unmounted := True\<rparr>)"
      by (rule hook_inv_unmount)
    with False Unmount show ?thesis
      by (simp only: step_Unmount_after_cleanup if_False)
  qed
next
  case (SubscribeResolved i d)
  then show ?thesis using hook_inv_same_control [OF assms same_control_step] by blast
next
  case (SubscribeRejected i err)
  then show ?thesis using hook_inv_same_control [OF assms same_control_step] by blast
next
  case (UnsubscribeResolved i)
  then show ?thesis using hook_inv_same_control [OF assms same_control_step] by blast
next
  case (UnsubscribeRejected i err)
  then show ?thesis using hook_inv_same_control [OF assms same_control_step] by blast
next
  case (DataPush m d)
  then show ?thesis using hook_inv_same_control [OF assms same_control_step] by blast
qed

lemma hook_inv_foldl: "hook_inv s \<Longrightarrow> hook_inv (foldl step s es)"
  by (induction es arbitrary: s) (simp_all add: hook_inv_step)

lemma hook_inv_run: "hook_inv (run es)"
  unfolding run_def by (rule hook_inv_foldl) (rule hook_inv_initial)

declare step.simps [simp del]

lemma run_snoc: "run (es @ [e]) = step (run es) e"
  by (simp add: run_def)

lemma run_append: "run (es @ es') = foldl step (run es) es'"
  by (simp add: run_def)

lemma after_cleanup_closures:
  "length (closures (after_cleanup s)) = length (closures s)"
  "j < length (closures s) \<Longrightarrow> destroyed (closures s ! j) \<Longrightarrow>
     destroyed (closures (after_cleanup s) ! j)"
proof -
  show "length (closures (after_cleanup s)) = length (closures s)"
    by (cases "cleanup s") (simp_all add: after_cleanup_def run_cleanup_def Let_def
        socket_off_def setModuleStoreCache_def socketEmitPromise_def)
  assume j: "j < length (closures s)" and d: "destroyed (closures s ! j)"
  show "destroyed (closures (after_cleanup s) ! j)"
  proof (cases "cleanup s")
    case None
    with d show ?thesis by (simp add: after_cleanup_def)
  next
    case (Some i)
    show ?thesis
    proof (cases "i < length (closures s)")
      case True
      with Some j d show ?thesis
        by (cases "i = j") (simp_all add: after_cleanup_def run_cleanup_fields)
    next
      case False
      with Some d show ?thesis by (simp add: after_cleanup_def run_cleanup_def)
    qed
  qed
qed

lemma after_cleanup_destroys:
  assumes "cleanup s = Some i" and "i < length (closures s)"
  shows "destroyed (closures (after_cleanup s) ! i)"
  using assms by (simp add: after_cleanup_def run_cleanup_fields)

lemma effect_closures_prefix:
  "length (closures s) \<le> length (closures (effect m s))"
  "j < length (closures s) \<Longrightarrow> closures (effect m s) ! j = closures s ! j"
  by (cases "absent m"; cases m;
      simp add: effect_absent_fields effect_present_fields nth_append)+

lemma destroyed_step:
  assumes "i < length (closures s)" and "destroyed (closures s ! i)"
  shows "i < length (closures (step s e)) \<and> destroyed (closures (step s e) ! i)"
proof -
  have ac: "i < length (closures (after_cleanup s))" "destroyed (closures (after_cleanup s) ! i)"
    using assms by (simp_all add: after_cleanup_closures)
  have ef: "i < length (closures (effect m (after_cleanup s)))
            \<and> destroyed (closures (effect m (after_cleanup s)) ! i)" for m
    using ac effect_closures_prefix [where s = "after_cleanup s" and m = m]
    by (metis less_le_trans)
  show ?thesis
  proof (cases "(\<exists>m. e = Render m) \<or> e = Unmount")
    case True
    then show ?thesis
    proof
      assume "\<exists>m. e = Render m"
      then obtain m where "e = Render m" ..
      with assms ef [of m] show ?thesis
        by (simp add: step_Render_after_cleanup)
    next
      assume "e = Unmount"
      with assms ac show ?thesis
        by (simp add: step_Unmount_after_cleanup)
    qed
  next
    case False
    then have "same_control s (step s e)"
      by (intro same_control_step) auto
    with assms show ?thesis by (simp add: same_control_def)
  qed
qed

lemma destroyed_foldl:
  assumes "i < length (closures s)" and "destroyed (closures s ! i)"
  shows "i < length (closures (foldl step s es)) \<and> destroyed (closures (foldl step s es) ! i)"
  using assms
proof (induction es arbitrary: s)
  case Nil
  then show ?case by simp
next
  case (Cons e es)
  from destroyed_step [OF Cons.prems, of e] show ?case
    by (simp add: Cons.IH)
qed

lemma response_destroyed:
  assumes "i < length (closures s)" and "destroyed (closures s ! i)"
  shows "moduleStoreCache (step s (SubscribeResolved i d)) = moduleStoreCache s"
  using assms
  by (simp add: step.simps subscribe_then_def set_subscribe_pending_def setModuleStoreCache_def)

lemma push_other_module:
  assumes "hook_inv s" and "deps s \<noteq> Some (Some m)"
  shows "step s (DataPush m d) = s"
proof (cases "cleanup s")
  case None
  with assms(1) show ?thesis by (simp add: step.simps hook_inv_def)
next
  case (Some i)
  with assms have "listeners s = [i]" "closure_moduleId (closures s ! i) \<noteq> m"
    by (auto simp: hook_inv_def)
  then show ?thesis by (simp add: step.simps updateCache_def)
qed

lemma late_response:
  assumes a: "a \<noteq> []" and mounted: "\<not> unmounted (run es)"
    and change: "deps (run es) \<noteq> Some (Some a)"
    and ev: "ev = Unmount \<or> (\<exists>b. ev = Render b \<and> b \<noteq> Some a)"
  shows "moduleStoreCache (step (run (es @ [Render (Some a), ev] @ es2))
            (SubscribeResolved (length (closures (run es))) d))
         = moduleStoreCache (run (es @ [Render (Some a), ev] @ es2))"
proof -
  let ?s0 = "run es"
  let ?i = "length (closures ?s0)"
  let ?s1 = "step ?s0 (Render (Some a))"
  let ?s2 = "step ?s1 ev"
  have s1: "?s1 = (effect (Some a) (after_cleanup ?s0))\<lparr>deps := Some (Some a)\<rparr>"
    using mounted change by (simp add: step_Render_after_cleanup)
  have inv1: "hook_inv ?s1" by (rule hook_inv_step) (rule hook_inv_run)
  have c1: "cleanup ?s1 = Some ?i" "length (closures ?s1) = Suc ?i"
    "deps ?s1 = Some (Some a)" "\<not> unmounted ?s1"
    unfolding s1
    using mounted after_cleanup_unmounted [OF hook_inv_run, of es]
    by (simp_all add: effect_present_fields [OF a] after_cleanup_closures)
  have d2: "?i < length (closures ?s2) \<and> destroyed (closures ?s2 ! ?i)"
    using ev
  proof
    assume "ev = Unmount"
    then have "closures ?s2 = closures (after_cleanup ?s1)"
      using c1(4) by (simp only: step_Unmount_after_cleanup if_False) simp
    with after_cleanup_destroys [OF c1(1)] c1(2) show ?thesis
      by (simp add: after_cleanup_closures)
  next
    assume "\<exists>b. ev = Render b \<and> b \<noteq> Some a"
    then obtain b where b: "ev = Render b" "b \<noteq> Some a" by blast
    have i: "?i < length (closures (after_cleanup ?s1))"
      "destroyed (closures (after_cleanup ?s1) ! ?i)"
      using after_cleanup_destroys [OF c1(1)] c1(2) by (simp_all add: after_cleanup_closures)
    have "closures ?s2 = closures (effect b (after_cleanup ?s1))"
      using b c1(3,4) by (simp only: b(1) step_Render_after_cleanup) auto
    with i effect_closures_prefix [where s = "after_cleanup ?s1" and m = b] show ?thesis
      by (metis less_le_trans)
  qed
  have run_eq: "run (es @ [Render (Some a), ev] @ es2) = foldl step ?s2 es2"
    by (simp add: run_def)
  from d2 have "?i < length (closures (foldl step ?s2 es2))
      \<and> destroyed (closures (foldl step ?s2 es2) ! ?i)"
    by (intro destroyed_foldl) simp_all
  then show ?thesis
    unfolding run_eq by (intro response_destroyed) simp_all
qed

lemma active_run:
  assumes "hook_inv s" and "deps s = Some (Some a)" and "a \<noteq> []" and "\<not> unmounted s"
  obtains i where "cleanup s = Some i" and "i < length (closures s)"
    and "closure_moduleId (closures s ! i) = a"
proof (cases "cleanup s")
  case None
  with assms show ?thesis by (simp add: hook_inv_def)
next
  case (Some i)
  with assms have "i < length (closures s)" "closure_moduleId (closures s ! i) = a"
    by (simp_all add: hook_inv_def)
  with Some that show ?thesis by blast
qed

lemma no_active_run:
  assumes "hook_inv s" and "deps s = None \<or> (\<exists>m. deps s = Some m \<and> absent m)"
  shows "cleanup s = None"
proof (cases "cleanup s")
  case None
  then show ?thesis .
next
  case (Some i)
  with assms(1) have "deps s = Some (Some (closure_moduleId (closures s ! i)))"
    "closure_moduleId (closures s ! i) \<noteq> []"
    by (simp_all add: hook_inv_def)
  with assms(2) show ?thesis by auto
qed

lemma after_cleanup_active:
  assumes "cleanup s = Some i" and "i < length (closures s)"
  shows "actions (after_cleanup s) =
           actions s @ [SocketOff i, SetModuleStoreCache None,
                        EmitPromise (Unsubscribe (closure_moduleId (closures s ! i)))]"
    and "moduleStoreCache (after_cleanup s) = None"
  using assms by (simp_all add: after_cleanup_def run_cleanup_fields)

lemma after_cleanup_none: "cleanup s = None \<Longrightarrow> after_cleanup s = s"
  by (simp add: after_cleanup_def)

lemma cache_step_no_active:
  assumes "hook_inv s" and "cleanup s = None" and "\<And>m. e \<noteq> Render m" and "e \<noteq> Unmount"
  shows "moduleStoreCache (step s e) = moduleStoreCache s"
proof (cases e)
  case (Render m)
  with assms(3) [of m] show ?thesis by simp
next
  case Unmount
  with assms(4) show ?thesis by simp
next
  case (SubscribeResolved i d)
  show ?thesis
  proof (cases "i < length (closures s)")
    case True
    with assms(1,2) have "destroyed (closures s ! i)" by (simp add: hook_inv_def)
    with True SubscribeResolved show ?thesis by (simp add: response_destroyed)
  next
    case False
    with SubscribeResolved show ?thesis by (simp add: step.simps)
  qed
next
  case (SubscribeRejected i err)
  then show ?thesis
    by (simp add: step.simps subscribe_catch_def console_error_def set_subscribe_pending_def)
next
  case (UnsubscribeResolved i)
  then show ?thesis by (simp add: step.simps set_unsubscribe_pending_def)
next
  case (UnsubscribeRejected i err)
  then show ?thesis
    by (simp add: step.simps unsubscribe_catch_def console_error_def set_unsubscribe_pending_def)
next
  case (DataPush m d)
  with assms(1,2) show ?thesis by (simp add: step.simps hook_inv_def)
qed

lemma cache_none_run: "cleanup (run es) = None \<Longrightarrow> moduleStoreCache (run es) = None"
proof (induction es rule: rev_induct)
  case Nil
  show ?case by (simp add: run_def initial_state_def)
next
  case (snoc e es)
  let ?s = "run es"
  have inv: "hook_inv ?s" by (rule hook_inv_run)
  show ?case
  proof (cases "(\<exists>m. e = Render m) \<or> e = Unmount")
    case False
    then have sc: "same_control ?s (step ?s e)"
      by (intro same_control_step) auto
    with snoc.prems have c: "cleanup ?s = None"
      by (simp add: run_snoc same_control_def)
    from False have "moduleStoreCache (step ?s e) = moduleStoreCache ?s"
      by (intro cache_step_no_active [OF inv c]) auto
    with snoc.IH [OF c] show ?thesis by (simp add: run_snoc)
  next
    case True
    then show ?thesis
    proof
      assume "\<exists>m. e = Render m"
      then obtain m where e: "e = Render m" ..
      show ?thesis
      proof (cases "unmounted ?s \<or> deps ?s = Some m")
        case True
        with e snoc show ?thesis by (simp add: run_snoc step.simps)
      next
        case False
        have "moduleStoreCache (effect m (after_cleanup ?s)) = None"
          by (cases "absent m"; cases m)
             (simp_all add: effect_absent_fields effect_present_fields)
        with False e show ?thesis
          by (simp add: run_snoc step_Render_after_cleanup)
      qed
    next
      assume e: "e = Unmount"
      show ?thesis
      proof (cases "unmounted ?s")
        case True
        with e snoc show ?thesis by (simp add: run_snoc step.simps)
      next
        case False
        have "moduleStoreCache (after_cleanup ?s) = None"
        proof (cases "cleanup ?s")
          case None
          with snoc.IH show ?thesis by (simp add: after_cleanup_none)
        next
          case (Some i)
          with inv have "i < length (closures ?s)" by (simp add: hook_inv_def)
          with Some show ?thesis by (simp add: after_cleanup_active)
        qed
        with False e show ?thesis
          by (simp add: run_snoc step_Unmount_after_cleanup)
      qed
    qed
  qed
qed

lemma run_Nil: "run [] = initial_state"
  by (simp add: run_def)

lemmas hook_eval =
  run_def step.simps effect_def run_cleanup_def updateCache_def subscribe_then_def
  subscribe_catch_def unsubscribe_catch_def set_subscribe_pending_def
  set_unsubscribe_pending_def setModuleStoreCache_def socketEmitPromise_def socket_on_def
  socket_off_def console_error_def initial_state_def Let_def

lemma run_a_b:
  "run [Render (Some ''a''), Render (Some ''b'')] =
     \<lparr> moduleStoreCache = None,
       closures = [\<lparr> closure_moduleId = ''a'', destroyed = True,
                     subscribe_pending = True, unsubscribe_pending = True \<rparr>,
                   \<lparr> closure_moduleId = ''b'', destroyed = False,
                     subscribe_pending = True, unsubscribe_pending = False \<rparr>],
       listeners = [1], cleanup = Some 1, deps = Some (Some ''b''), unmounted = False,
       actions = [SetModuleStoreCache None, EmitPromise (Subscribe ''a''), SocketOn 0,
                  SocketOff 0, SetModuleStoreCache None, EmitPromise (Unsubscribe ''a''),
                  SetModuleStoreCache None, EmitPromise (Subscribe ''b''), SocketOn 1] \<rparr>"
  by (simp add: hook_eval)

lemma step_UnsubscribeRejected_fields:
  "moduleStoreCache (step s (UnsubscribeRejected j err)) = moduleStoreCache s"
  "listeners (step s (UnsubscribeRejected j err)) = listeners s"
  "actions (step s (UnsubscribeRejected j err)) = actions s
   \<or> actions (step s (UnsubscribeRejected j err)) =
        actions s @ [ConsoleError (''Failed to unsubscribe to module store '' @ err)]"
  by (simp_all add: step.simps unsubscribe_catch_def console_error_def
      set_unsubscribe_pending_def)

lemma change_from_present:
  assumes inv: "hook_inv s" and d: "deps s = Some (Some a)" and a: "a \<noteq> []"
    and mounted: "\<not> unmounted s"
  shows "\<exists>i. actions (step s Unmount) =
           actions s @ [SocketOff i, SetModuleStoreCache None, EmitPromise (Unsubscribe a)]"
    and "b \<noteq> [] \<Longrightarrow> b \<noteq> a \<Longrightarrow>
         \<exists>i j. actions (step s (Render (Some b))) =
           actions s @ [SocketOff i, SetModuleStoreCache None, EmitPromise (Unsubscribe a),
                        SetModuleStoreCache None, EmitPromise (Subscribe b), SocketOn j]"
    and "absent m \<Longrightarrow>
         \<exists>i. actions (step s (Render m)) =
           actions s @ [SocketOff i, SetModuleStoreCache None, EmitPromise (Unsubscribe a),
                        SetModuleStoreCache None]"
proof -
  from active_run [OF inv d a mounted] obtain i where i: "cleanup s = Some i"
    "i < length (closures s)" "closure_moduleId (closures s ! i) = a"
    by blast
  have ac: "actions (after_cleanup s) =
      actions s @ [SocketOff i, SetModuleStoreCache None, EmitPromise (Unsubscribe a)]"
    using after_cleanup_active(1) [OF i(1,2)] i(3) by simp
  show "\<exists>i. actions (step s Unmount) =
           actions s @ [SocketOff i, SetModuleStoreCache None, EmitPromise (Unsubscribe a)]"
    using mounted ac by (simp add: step_Unmount_after_cleanup)
  show "\<exists>i j. actions (step s (Render (Some b))) =
           actions s @ [SocketOff i, SetModuleStoreCache None, EmitPromise (Unsubscribe a),
                        SetModuleStoreCache None, EmitPromise (Subscribe b), SocketOn j]"
    if "b \<noteq> []" "b \<noteq> a"
    using mounted d ac that
    by (simp add: step_Render_after_cleanup effect_present_fields)
  show "\<exists>i. actions (step s (Render m)) =
           actions s @ [SocketOff i, SetModuleStoreCache None, EmitPromise (Unsubscribe a),
                        SetModuleStoreCache None]"
    if "absent m"
  proof -
    from that a have "Some (Some a) \<noteq> Some m" by (cases m) auto
    with mounted d ac that show ?thesis
      by (simp add: step_Render_after_cleanup effect_absent_fields)
  qed
qed

lemma change_from_absent:
  assumes inv: "hook_inv s" and mounted: "\<not> unmounted s"
    and d: "deps s = None \<or> (\<exists>m. deps s = Some m \<and> absent m)"
  shows "actions (step s Unmount) = actions s"
    and "b \<noteq> [] \<Longrightarrow>
         actions (step s (Render (Some b))) =
           actions s @ [SetModuleStoreCache None, EmitPromise (Subscribe b),
                        SocketOn (length (closures s))]"
proof -
  have c: "after_cleanup s = s"
    using no_active_run [OF inv d] by (rule after_cleanup_none)
  show "actions (step s Unmount) = actions s"
    using mounted by (simp add: step_Unmount_after_cleanup c)
  show "actions (step s (Render (Some b))) =
           actions s @ [SetModuleStoreCache None, EmitPromise (Subscribe b),
                        SocketOn (length (closures s))]"
    if "b \<noteq> []"
  proof -
    from d that have "deps s \<noteq> Some (Some b)" by auto
    with mounted that show ?thesis
      by (simp add: step_Render_after_cleanup c effect_present_fields)
  qed
qed

lemma run_a:
  "run [Render (Some ''a'')] =
     \<lparr> moduleStoreCache = None,
       closures = [\<lparr> closure_moduleId = ''a'', destroyed = False,
                     subscribe_pending = True, unsubscribe_pending = False \<rparr>],
       listeners = [0], cleanup = Some 0, deps = Some (Some ''a''), unmounted = False,
       actions = [SetModuleStoreCache None, EmitPromise (Subscribe ''a''), SocketOn 0] \<rparr>"
  by (simp add: hook_eval)

lemma run_undefined:
  "run [Render None] =
     \<lparr> moduleStoreCache = None, closures = [], listeners = [], cleanup = None,
       deps = Some None, unmounted = False, actions = [SetModuleStoreCache None] \<rparr>"
  by (simp add: hook_eval)

lemma render_absent:
  assumes m: "absent m" and mounted: "\<not> unmounted (run es)"
  shows "moduleStoreCache (step (run es) (Render m)) = None"
    and "cleanup (step (run es) (Render m)) = None"
    and "listeners (step (run es) (Render m)) = []"
    and "\<not> unmounted (step (run es) (Render m))"
    and "deps (step (run es) (Render m)) = Some m"
proof -
  let ?s = "run es"
  have inv: "hook_inv ?s" by (rule hook_inv_run)
  have all: "moduleStoreCache (step ?s (Render m)) = None \<and> cleanup (step ?s (Render m)) = None
      \<and> listeners (step ?s (Render m)) = [] \<and> \<not> unmounted (step ?s (Render m))
      \<and> deps (step ?s (Render m)) = Some m"
  proof (cases "deps ?s = Some m")
    case True
    with m have c: "cleanup ?s = None"
      by (intro no_active_run [OF inv]) auto
    with inv have "listeners ?s = []" by (simp add: hook_inv_def)
    with c cache_none_run [OF c] True mounted show ?thesis
      by (simp add: step.simps)
  next
    case False
    have "listeners (after_cleanup ?s) = []"
      using idle_after_cleanup [OF inv] by (simp add: idle_def)
    with False mounted m after_cleanup_unmounted [OF inv] show ?thesis
      by (simp add: step_Render_after_cleanup effect_absent_fields)
  qed
  then show "moduleStoreCache (step (run es) (Render m)) = None"
    and "cleanup (step (run es) (Render m)) = None"
    and "listeners (step (run es) (Render m)) = []"
    and "\<not> unmounted (step (run es) (Render m))"
    and "deps (step (run es) (Render m)) = Some m"
    by blast+
qed

lemma render_absent_emitted:
  assumes m: "absent m" and mounted: "\<not> unmounted (run es)"
  shows "deps (run es) = Some (Some a) \<Longrightarrow> a \<noteq> [] \<Longrightarrow>
           emitted (actions (step (run es) (Render m))) =
             emitted (actions (run es)) @ [Unsubscribe a]"
    and "deps (run es) = None \<or> (\<exists>m0. deps (run es) = Some m0 \<and> absent m0) \<Longrightarrow>
           moduleStoreCache (run es) = None
           \<and> emitted (actions (step (run es) (Render m))) = emitted (actions (run es))"
proof -
  let ?s = "run es"
  have inv: "hook_inv ?s" by (rule hook_inv_run)
  show "emitted (actions (step ?s (Render m))) = emitted (actions ?s) @ [Unsubscribe a]"
    if d: "deps ?s = Some (Some a)" and a: "a \<noteq> []"
  proof -
    from change_from_present(3) [OF inv d a mounted m]
    obtain i where "actions (step ?s (Render m)) =
        actions ?s @ [SocketOff i, SetModuleStoreCache None, EmitPromise (Unsubscribe a),
                      SetModuleStoreCache None]"
      by blast
    then show ?thesis by (simp add: emitted_append)
  qed
  show "moduleStoreCache ?s = None
        \<and> emitted (actions (step ?s (Render m))) = emitted (actions ?s)"
    if d: "deps ?s = None \<or> (\<exists>m0. deps ?s = Some m0 \<and> absent m0)"
  proof -
    have c: "cleanup ?s = None" by (rule no_active_run [OF inv d])
    have "emitted (actions (step ?s (Render m))) = emitted (actions ?s)"
    proof (cases "deps ?s = Some m")
      case True
      then show ?thesis by (simp add: step.simps)
    next
      case False
      with mounted m show ?thesis
        by (simp add: step_Render_after_cleanup after_cleanup_none [OF c]
            effect_absent_fields emitted_append)
    qed
    with cache_none_run [OF c] show ?thesis by simp
  qed
qed

lemma run_a_ready:
  "run [Render (Some ''a''), SubscribeResolved 0 info_a] =
     \<lparr> moduleStoreCache = Some info_a,
       closures = [\<lparr> closure_moduleId = ''a'', destroyed = False,
                     subscribe_pending = False, unsubscribe_pending = False \<rparr>],
       listeners = [0], cleanup = Some 0, deps = Some (Some ''a''), unmounted = False,
       actions = [SetModuleStoreCache None, EmitPromise (Subscribe ''a''), SocketOn 0,
                  SetModuleStoreCache (Some info_a)] \<rparr>"
  by (simp add: hook_eval)

section \<open>Claims about the merge\<close>

text \<open>
  C1. The output of \<open>useAllConnectionProducts\<close> is the list of values of the mapping, in
  the order in which the keys were first written, and no key occurs twice. After the
  first loop the mapping holds under each composite key the record built from the
  installed module (its \<open>storeInfo\<close> is null). After the second loop it holds, under a
  key that the first loop wrote, that record with the store entry attached and, under a
  key that only the store list has, a record created from the store entry (its
  \<open>installedInfo\<close> is null). For an installed module \<open>x\<close> with product \<open>p1\<close> and a store
  entry \<open>x\<close> with products \<open>p1\<close> and \<open>p2\<close>, whatever their other fields are, the output
  has the two entries of the keys \<open>x-p1\<close> (both infos set) and \<open>x-p2\<close> (no installed
  info).
\<close>

theorem useAllConnectionProducts_merge:
  "useAllConnectionProducts ms ss = map snd (allProducts_of ms ss)
   \<and> distinct (map fst (allProducts_of ms ss))
   \<and> obj_get (add_installed_modules ms []) k = installed_record ms k
   \<and> storeInfo (installed_product mi p) = None
   \<and> obj_get (allProducts_of ms ss) k = merged_record ms ss k
   \<and> installedInfo (store_product si p) = None
   \<and> (let m' = m\<lparr>baseInfo := (baseInfo m)\<lparr>id_base := ''x'', products_base := [''p1''],
                                               name_base := ''Foo''\<rparr>\<rparr>;
           s' = s\<lparr>id_store := ''x'', products_store := [''p1'', ''p2''], name_store := ''Foo''\<rparr>;
           e1 = (installed_product m' ''p1'')\<lparr>storeInfo := Some s'\<rparr>;
           e2 = store_product s' ''p2''
       in useAllConnectionProducts [m'] [s'] = [e1, e2]
          \<and> map fst (allProducts_of [m'] [s']) = [''x-p1'', ''x-p2'']
          \<and> installedInfo e1 = Some m' \<and> storeInfo e1 = Some s'
          \<and> installedInfo e2 = None \<and> storeInfo e2 = Some s')"
proof -
  have "obj_get (add_installed_modules ms []) k = installed_record ms k"
    by (simp add: obj_get_def add_installed_modules_pairs map_of_fold_installed
        installed_record_def split: option.splits)
  moreover have "obj_get (allProducts_of ms ss) k = merged_record ms ss k"
    by (simp add: obj_get_def map_of_allProducts_of)
  moreover have "useAllConnectionProducts [m'] [s'] =
        [(installed_product m' ''p1'')\<lparr>storeInfo := Some s'\<rparr>, store_product s' ''p2'']
      \<and> map fst (allProducts_of [m'] [s']) = [''x-p1'', ''x-p2'']"
    if "m' = m\<lparr>baseInfo := (baseInfo m)\<lparr>id_base := ''x'', products_base := [''p1''],
                                               name_base := ''Foo''\<rparr>\<rparr>"
      and "s' = s\<lparr>id_store := ''x'', products_store := [''p1'', ''p2''], name_store := ''Foo''\<rparr>"
    for m' s'
  proof
    show "useAllConnectionProducts [m'] [s'] =
        [(installed_product m' ''p1'')\<lparr>storeInfo := Some s'\<rparr>, store_product s' ''p2'']"
      by (rule scenario_eval) (simp_all add: that)
    show "map fst (allProducts_of [m'] [s']) = [''x-p1'', ''x-p2'']"
      by (simp add: that allProducts_of_def add_store_modules_def add_installed_modules_def
          add_store_def add_installed_def obj_set_def obj_get_def product_key_def)
  qed
  ultimately show ?thesis
    by (simp add: useAllConnectionProducts_values distinct_allProducts_of Let_def
        installed_product_fields store_product_fields)
qed

text \<open>
  C2. Every record in the output of \<open>useAllConnectionProducts\<close> has an installed info or
  a store info.
\<close>

theorem useAllConnectionProducts_some_info:
  "\<forall>e \<in> set (useAllConnectionProducts ms ss). installedInfo e \<noteq> None \<or> storeInfo e \<noteq> None"
proof
  fix e assume "e \<in> set (useAllConnectionProducts ms ss)"
  then obtain k where k: "merged_record ms ss k = Some e"
    by (auto simp: set_useAllConnectionProducts)
  then have "k \<in> fst ` set (allProducts_of ms ss)"
    using map_of_allProducts_of [of ms ss k] by (metis map_of_eq_None_iff option.distinct(1))
  then have "k \<in> set (map installed_key (installed_pairs ms)) \<or> k \<in> set (map store_key (store_pairs ss))"
    by (simp add: keys_allProducts_of)
  with merged_record_infos [OF k] show "installedInfo e \<noteq> None \<or> storeInfo e \<noteq> None"
    by blast
qed

theorem useAllConnectionProducts_some_info_witness:
  "store_product foo_store ''p2'' \<in> set (useAllConnectionProducts [foo_installed] [foo_store])
   \<and> installedInfo (store_product foo_store ''p2'') = None
   \<and> storeInfo (store_product foo_store ''p2'') \<noteq> None"
proof -
  have mem: "store_product foo_store ''p2'' \<in> set (useAllConnectionProducts [foo_installed] [foo_store])"
    by (simp add: scenario_eval foo_installed_def foo_store_def)
  from useAllConnectionProducts_some_info [of "[foo_installed]" "[foo_store]"] mem
  have "installedInfo (store_product foo_store ''p2'') \<noteq> None
        \<or> storeInfo (store_product foo_store ''p2'') \<noteq> None"
    by blast
  with mem show ?thesis by (simp add: store_product_fields)
qed

text \<open>
  C5. The installed module \<open>a-b\<close> with the product \<open>c\<close> and the store entry \<open>a\<close> with
  the product \<open>b-c\<close> are two modules with different identifiers and one product each,
  and they have no pair of identifier and product in common. Their composite keys are
  the same string, and the merge returns one record for the two products instead of two:
  the record has the identifier and the installed info of the module \<open>a-b\<close> and the store
  info of the module \<open>a\<close>.
\<close>

theorem merged_count_collision:
  "id_base (baseInfo ab_installed) = ''a-b'' \<and> products_base (baseInfo ab_installed) = [''c'']
   \<and> id_store a_store = ''a'' \<and> products_store a_store = [''b-c'']
   \<and> (id_base (baseInfo ab_installed), ''c'') \<noteq> (id_store a_store, ''b-c'')
   \<and> product_key (id_base (baseInfo ab_installed)) ''c'' = product_key (id_store a_store) ''b-c''
   \<and> useAllConnectionProducts [ab_installed] [a_store] =
        [(installed_product ab_installed ''c'')\<lparr>storeInfo := Some a_store\<rparr>]
   \<and> length (useAllConnectionProducts [ab_installed] [a_store]) = 1
   \<and> length (products_base (baseInfo ab_installed)) + length (products_store a_store) = 2"
  by (simp add: merge_eval add_store_def add_installed_def obj_set_def obj_get_def
      product_key_def ab_installed_def a_store_def)

text \<open>
  C7. When the second loop runs over a store list from any accumulated mapping, a record
  that the mapping holds under a key stays under that key with its identifier, product,
  name, manufacturer, short name, keyword string and installed info; only its store info
  becomes the store entry seen last under that key, if the store list has one.
\<close>

theorem add_store_modules_frame:
  assumes "obj_get allProducts k = Some e"
  shows "\<exists>e'. obj_get (add_store_modules storeList allProducts) k = Some e'
           \<and> id_fp e' = id_fp e \<and> product e' = product e \<and> name e' = name e
           \<and> manufacturer e' = manufacturer e \<and> shortname e' = shortname e
           \<and> keywords_fp e' = keywords_fp e \<and> installedInfo e' = installedInfo e
           \<and> storeInfo e' = (case store_attached storeList k of
                                None \<Rightarrow> storeInfo e | Some s \<Rightarrow> Some s)"
  using assms
  by (simp add: obj_get_def add_store_modules_pairs map_of_fold_store store_attached_def
      split: option.splits)

theorem add_store_modules_frame_witness:
  "obj_get (add_installed_modules [foo_installed] []) ''x-p1'' = Some (installed_product foo_installed ''p1'')
   \<and> (\<exists>e'. obj_get (add_store_modules [foo_store_renamed] (add_installed_modules [foo_installed] [])) ''x-p1''
              = Some e'
        \<and> id_fp e' = ''x'' \<and> product e' = ''p1'' \<and> name e' = ''Foo'' \<and> manufacturer e' = ''Acme''
        \<and> shortname e' = ''foo'' \<and> keywords_fp e' = [] \<and> installedInfo e' = Some foo_installed
        \<and> storeInfo e' = Some foo_store_renamed)"
proof -
  have h: "obj_get (add_installed_modules [foo_installed] []) ''x-p1'' = Some (installed_product foo_installed ''p1'')"
    by (simp add: add_installed_modules_def add_installed_def obj_set_def obj_get_def
        product_key_def foo_installed_def)
  have att: "store_attached [foo_store_renamed] ''x-p1'' = Some foo_store_renamed"
    by (simp add: store_attached_def store_pairs_def store_key_def product_key_def
        foo_store_renamed_def foo_store_def)
  have fields: "id_fp (installed_product foo_installed ''p1'') = ''x''"
    "name (installed_product foo_installed ''p1'') = ''Foo''"
    "manufacturer (installed_product foo_installed ''p1'') = ''Acme''"
    "shortname (installed_product foo_installed ''p1'') = ''foo''"
    "keywords_fp (installed_product foo_installed ''p1'') = []"
    by (simp_all add: installed_product_def foo_installed_def)
  from add_store_modules_frame [OF h, of "[foo_store_renamed]"] h att fields show ?thesis
    by (simp add: installed_product_fields)
qed

section \<open>Claims about the text filter and the candidate list\<close>

text \<open>
  C4. With the empty query \<open>filterProducts\<close> returns its input list as it is, whatever the
  ranking function and the list are.
\<close>

theorem filterProducts_empty_query:
  "filterProducts fuzzySearch allProducts [] = Inr allProducts"
  by (simp add: filterProducts_def)

text \<open>
  C6. With a non-empty query \<open>filterProducts\<close> returns the items of what the ranking
  function returns for the query, the list and the options with the keys \<open>product\<close>,
  \<open>name\<close>, \<open>manufacturer\<close>, \<open>keywords\<close> in this order (and throws what it throws).
  When the ranking function keeps its contract, a query that matches none of these four
  fields of any product gives the empty list, and so does an empty input list.
\<close>

theorem filterProducts_delegates:
  "(filter_str \<noteq> [] \<longrightarrow>
      filterProducts fuzzySearch allProducts filter_str =
        map_sum id (map obj)
          (fuzzySearch filter_str allProducts
             \<lparr> keys = [''product'', ''name'', ''manufacturer'', ''keywords''],
               threshold = - 10000 \<rparr>))
   \<and> (filter_str \<noteq> [] \<and> ranking_contract matches fuzzySearch
        \<and> (\<forall>p \<in> set allProducts.
              \<not> matches filter_str (product p) \<and> \<not> matches filter_str (name p)
              \<and> \<not> matches filter_str (manufacturer p) \<and> \<not> matches filter_str (keywords_fp p)) \<longrightarrow>
      filterProducts fuzzySearch allProducts filter_str = Inr [])
   \<and> (ranking_contract matches fuzzySearch \<longrightarrow> filterProducts fuzzySearch [] filter_str = Inr [])"
proof (intro conjI impI)
  assume ne: "filter_str \<noteq> []"
  from filterProducts_query [OF ne, of fuzzySearch allProducts]
  show "filterProducts fuzzySearch allProducts filter_str =
        map_sum id (map obj)
          (fuzzySearch filter_str allProducts
             \<lparr> keys = [''product'', ''name'', ''manufacturer'', ''keywords''],
               threshold = - 10000 \<rparr>)"
    by (simp only: filter_options_def)
next
  assume "filter_str \<noteq> [] \<and> ranking_contract matches fuzzySearch
        \<and> (\<forall>p \<in> set allProducts.
              \<not> matches filter_str (product p) \<and> \<not> matches filter_str (name p)
              \<and> \<not> matches filter_str (manufacturer p) \<and> \<not> matches filter_str (keywords_fp p))"
  then show "filterProducts fuzzySearch allProducts filter_str = Inr []"
    by (intro filterProducts_no_match) (erule conjE, assumption, (erule conjE)+, assumption,
                                       (erule conjE)+, assumption)
next
  assume "ranking_contract matches fuzzySearch"
  then show "filterProducts fuzzySearch [] filter_str = Inr []"
    by (rule filterProducts_no_items)
qed

theorem filterProducts_delegates_witness:
  "''zzz'' \<noteq> [] \<and> ranking_contract (=) exact_search
   \<and> useAllConnectionProducts [foo_installed] [foo_store] =
        [(installed_product foo_installed ''p1'')\<lparr>storeInfo := Some foo_store\<rparr>,
         store_product foo_store ''p2'']
   \<and> filterProducts exact_search (useAllConnectionProducts [foo_installed] [foo_store]) ''zzz'' = Inr []
   \<and> filterProducts exact_search [] ''zzz'' = Inr []"
proof -
  let ?ps = "useAllConnectionProducts [foo_installed] [foo_store]"
  have ps: "?ps = [(installed_product foo_installed ''p1'')\<lparr>storeInfo := Some foo_store\<rparr>,
                   store_product foo_store ''p2'']"
    by (simp add: scenario_eval foo_installed_def foo_store_def)
  have ne: "''zzz'' \<noteq> []" by simp
  have nomatch: "\<forall>p \<in> set ?ps.
         \<not> ''zzz'' = product p \<and> \<not> ''zzz'' = name p
         \<and> \<not> ''zzz'' = manufacturer p \<and> \<not> ''zzz'' = keywords_fp p"
    unfolding ps
    by (simp add: installed_product_def store_product_def foo_installed_def foo_store_def)
  note t = filterProducts_delegates [of "''zzz''" exact_search ?ps "(=)"]
  have r1: "filterProducts exact_search ?ps ''zzz'' = Inr []"
    by (rule t [THEN conjunct2, THEN conjunct1, THEN mp])
       (intro conjI ne exact_search_contract nomatch)
  have r2: "filterProducts exact_search [] ''zzz'' = Inr []"
    by (rule t [THEN conjunct2, THEN conjunct2, THEN mp]) (rule exact_search_contract)
  show ?thesis
    by (intro conjI ne exact_search_contract ps r1 r2)
qed

text \<open>
  C9, as amended. The component function throws when the merge throws, which it does at
  a malformed entry of the module data: the merge and the visibility filter run before
  the \<^verbatim>\<open>try\<close> block. With well-formed module data the function returns, whatever the
  ranking function and the element factory do. When the ranking function throws for a
  non-empty query, or the factory throws for a search result, the candidates are the
  list that holds only the warning alert with the text of the exception, neither notice
  is shown, and the exception is written to the console. Without an exception nothing is
  written to the console and every candidate is an element that the factory returned
  for a search result.
\<close>

theorem AddConnectionsPanel_failures:
  "(None \<in> set modules \<or> None \<in> set storeList \<longrightarrow>
      AddConnectionsPanel entry fuzzySearch lower modules storeList available q = Inl ''TypeError'')
   \<and> (\<exists>v. AddConnectionsPanel entry fuzzySearch lower (map Some ms) (map Some ss) available q = Inr v)
   \<and> ((q \<noteq> [] \<and> fuzzySearch q (typeProducts (useAllConnectionProducts ms ss) available)
                    filter_options = Inl e)
       \<or> (\<exists>rs. filterProducts fuzzySearch (typeProducts (useAllConnectionProducts ms ss) available) q
                  = Inr rs
                \<and> first_failure entry rs = Some e) \<longrightarrow>
       AddConnectionsPanel entry fuzzySearch lower (map Some ms) (map Some ss) available q =
         Inr \<lparr> shown_candidates = [CAlert_warning e], no_match_notice = False,
                none_installed_notice = False,
                console_errors = [''Failed to compile candidates list: '' @ e] \<rparr>)
   \<and> (\<forall>rs. filterProducts fuzzySearch (typeProducts (useAllConnectionProducts ms ss) available) q
              = Inr rs
            \<and> first_failure entry rs = None \<longrightarrow>
         (\<exists>v. AddConnectionsPanel entry fuzzySearch lower (map Some ms) (map Some ss) available q
                 = Inr v
               \<and> console_errors v = []
               \<and> (\<forall>el \<in> set (shown_candidates v). \<exists>r \<in> set rs. entry (name r) r = Inr el)))"
proof (intro conjI impI allI)
  assume "None \<in> set modules \<or> None \<in> set storeList"
  then show "AddConnectionsPanel entry fuzzySearch lower modules storeList available q = Inl ''TypeError''"
    by (simp add: AddConnectionsPanel_def useAllConnectionProducts_runtime_malformed)
next
  show "\<exists>v. AddConnectionsPanel entry fuzzySearch lower (map Some ms) (map Some ss) available q = Inr v"
    by (simp add: AddConnectionsPanel_wellformed Let_def)
next
  let ?tp = "typeProducts (useAllConnectionProducts ms ss) available"
  assume "(q \<noteq> [] \<and> fuzzySearch q ?tp filter_options = Inl e)
       \<or> (\<exists>rs. filterProducts fuzzySearch ?tp q = Inr rs \<and> first_failure entry rs = Some e)"
  then have "try_candidates entry fuzzySearch lower ?tp q = Inl e"
    by (simp only: try_candidates_Inl)
  then have "candidates entry fuzzySearch lower ?tp q =
      ([CAlert_warning e], [''Failed to compile candidates list: '' @ e])"
    by (simp add: candidates_def)
  then show "AddConnectionsPanel entry fuzzySearch lower (map Some ms) (map Some ss) available q =
         Inr \<lparr> shown_candidates = [CAlert_warning e], no_match_notice = False,
                none_installed_notice = False,
                console_errors = [''Failed to compile candidates list: '' @ e] \<rparr>"
    by (simp add: AddConnectionsPanel_wellformed)
next
  fix rs
  let ?tp = "typeProducts (useAllConnectionProducts ms ss) available"
  assume "filterProducts fuzzySearch ?tp q = Inr rs \<and> first_failure entry rs = None"
  then have a: "filterProducts fuzzySearch ?tp q = Inr rs" and b: "first_failure entry rs = None"
    by blast+
  from try_candidates_Inr [OF a b, of lower]
  obtain cs where cs: "try_candidates entry fuzzySearch lower ?tp q = Inr cs"
    and sub: "set cs \<subseteq> {el. \<exists>r \<in> set rs. entry (name r) r = Inr el}"
    by blast
  from cs have "candidates entry fuzzySearch lower ?tp q = (cs, [])"
    by (simp add: candidates_def)
  with sub show "\<exists>v. AddConnectionsPanel entry fuzzySearch lower (map Some ms) (map Some ss) available q
                 = Inr v
               \<and> console_errors v = []
               \<and> (\<forall>el \<in> set (shown_candidates v). \<exists>r \<in> set rs. entry (name r) r = Inr el)"
    by (auto simp: AddConnectionsPanel_wellformed)
qed

theorem AddConnectionsPanel_failures_witness:
  "None \<in> set [Some foo_installed, None]
   \<and> AddConnectionsPanel make_entry exact_search id [Some foo_installed, None] [Some foo_store] True []
        = Inl ''TypeError''
   \<and> ''foo'' \<noteq> []
   \<and> throwing_search ''foo'' (typeProducts (useAllConnectionProducts [foo_installed] [foo_store]) True)
        filter_options = Inl ''TypeError''
   \<and> AddConnectionsPanel make_entry throwing_search id [Some foo_installed] [Some foo_store] True ''foo''
        = Inr \<lparr> shown_candidates = [CAlert_warning ''TypeError''], no_match_notice = False,
                 none_installed_notice = False,
                 console_errors = [''Failed to compile candidates list: '' @ ''TypeError''] \<rparr>
   \<and> first_failure failing_entry
        (typeProducts (useAllConnectionProducts [foo_installed] [foo_store]) True) = Some ''RangeError''
   \<and> AddConnectionsPanel failing_entry exact_search id [Some foo_installed] [Some foo_store] True []
        = Inr \<lparr> shown_candidates = [CAlert_warning ''RangeError''], no_match_notice = False,
                 none_installed_notice = False,
                 console_errors = [''Failed to compile candidates list: '' @ ''RangeError''] \<rparr>
   \<and> first_failure make_entry
        (typeProducts (useAllConnectionProducts [foo_installed] [foo_store]) True) = None
   \<and> (\<exists>v. AddConnectionsPanel make_entry exact_search id [Some foo_installed] [Some foo_store] True []
              = Inr v \<and> console_errors v = [])"
proof -
  let ?tp = "typeProducts (useAllConnectionProducts [foo_installed] [foo_store]) True"
  have m: "[Some foo_installed] = map Some [foo_installed]" "[Some foo_store] = map Some [foo_store]"
    by simp_all
  have h1: "None \<in> set [Some foo_installed, None]" by simp
  have r1: "AddConnectionsPanel make_entry exact_search id [Some foo_installed, None] [Some foo_store] True []
        = Inl ''TypeError''"
    by (rule AddConnectionsPanel_failures [where modules = "[Some foo_installed, None]",
          THEN conjunct1, THEN mp]) (rule disjI1, rule h1)
  have ne: "''foo'' \<noteq> []" by simp
  have h2: "throwing_search ''foo'' ?tp filter_options = Inl ''TypeError''"
    by (simp only: throwing_search_def)
  have r2: "AddConnectionsPanel make_entry throwing_search id [Some foo_installed] [Some foo_store] True ''foo''
        = Inr \<lparr> shown_candidates = [CAlert_warning ''TypeError''], no_match_notice = False,
                 none_installed_notice = False,
                 console_errors = [''Failed to compile candidates list: '' @ ''TypeError''] \<rparr>"
    unfolding m
    by (rule AddConnectionsPanel_failures [THEN conjunct2, THEN conjunct2, THEN conjunct1, THEN mp])
       (rule disjI1, intro conjI ne h2)
  have fp: "filterProducts exact_search ?tp [] = Inr ?tp"
    by (simp add: filterProducts_def)
  have h3: "first_failure failing_entry ?tp = Some ''RangeError''"
    unfolding foo_typeProducts
    by (simp add: failing_entry_def installed_product_def store_product_def)
  have r3: "AddConnectionsPanel failing_entry exact_search id [Some foo_installed] [Some foo_store] True []
        = Inr \<lparr> shown_candidates = [CAlert_warning ''RangeError''], no_match_notice = False,
                 none_installed_notice = False,
                 console_errors = [''Failed to compile candidates list: '' @ ''RangeError''] \<rparr>"
    unfolding m
    by (rule AddConnectionsPanel_failures [THEN conjunct2, THEN conjunct2, THEN conjunct1, THEN mp])
       (rule disjI2, rule exI [of _ ?tp], intro conjI fp h3)
  have h4: "first_failure make_entry ?tp = None"
    unfolding foo_typeProducts by (simp add: make_entry_def)
  from AddConnectionsPanel_failures [where entry = make_entry and fuzzySearch = exact_search
      and lower = id and ms = "[foo_installed]" and ss = "[foo_store]" and available = True
      and q = "[]", THEN conjunct2, THEN conjunct2, THEN conjunct2, THEN spec, THEN mp,
      OF conjI [OF fp h4]]
  have r4: "\<exists>v. AddConnectionsPanel make_entry exact_search id [Some foo_installed] [Some foo_store] True []
              = Inr v \<and> console_errors v = []"
    by auto
  show ?thesis
    by (intro conjI h1 r1 ne h2 r2 h3 r3 h4 r4)
qed

text \<open>
  The claim as written fails in two ways. After an exception of the ranking function the
  candidate list is not empty: it holds the alert, and the notice for an empty list is
  not shown. And an exception of the merge, at a malformed entry of the module data, is
  not caught: it leaves the component function.
\<close>

theorem AddConnectionsPanel_failures_counterexample:
  "AddConnectionsPanel make_entry throwing_search id [Some foo_installed] [Some foo_store] True ''foo''
     = Inr \<lparr> shown_candidates = [CAlert_warning ''TypeError''], no_match_notice = False,
              none_installed_notice = False,
              console_errors = [''Failed to compile candidates list: TypeError''] \<rparr>
   \<and> length [CAlert_warning ''TypeError''] = 1
   \<and> AddConnectionsPanel make_entry exact_search id [Some foo_installed, None] [Some foo_store] True []
     = Inl ''TypeError''"
proof -
  have m: "[Some foo_installed] = map Some [foo_installed]" "[Some foo_store] = map Some [foo_store]"
    by simp_all
  have "candidates make_entry throwing_search id
          (typeProducts (useAllConnectionProducts [foo_installed] [foo_store]) True) ''foo''
        = ([CAlert_warning ''TypeError''], [''Failed to compile candidates list: TypeError''])"
    by (simp add: candidates_def try_candidates_def filterProducts_def throwing_search_def)
  with AddConnectionsPanel_wellformed [where entry = make_entry and fuzzySearch = throwing_search
      and lower = id and ms = "[foo_installed]" and ss = "[foo_store]" and available = True
      and q = "''foo''"]
  have a: "AddConnectionsPanel make_entry throwing_search id [Some foo_installed] [Some foo_store] True ''foo''
     = Inr \<lparr> shown_candidates = [CAlert_warning ''TypeError''], no_match_notice = False,
              none_installed_notice = False,
              console_errors = [''Failed to compile candidates list: TypeError''] \<rparr>"
    by simp
  have b: "AddConnectionsPanel make_entry exact_search id [Some foo_installed, None] [Some foo_store] True []
     = Inl ''TypeError''"
    by (simp add: AddConnectionsPanel_def useAllConnectionProducts_runtime_def)
  from a b show ?thesis by simp
qed

section \<open>Claims about the subscription\<close>

text \<open>
  C3. Let the hook be rendered with a module identifier \<open>a\<close> that starts a subscription,
  and let the identifier change or the view be torn down next. Then, whatever happens in
  between, the response to the subscribe request for \<open>a\<close> leaves the cached state as it
  is when it arrives. In every reachable state the response to the request of a run that
  is not the current one leaves the cached state as it is, a pushed message for a module
  other than the current one changes nothing, at most one handler is registered, and at
  most one subscription has not been ended by an unsubscribe request.
\<close>

theorem stale_messages_discarded:
  "(a \<noteq> [] \<and> \<not> unmounted (run es) \<and> deps (run es) \<noteq> Some (Some a)
      \<and> (ev = Unmount \<or> (\<exists>b. ev = Render b \<and> b \<noteq> Some a)) \<longrightarrow>
      actions (run (es @ [Render (Some a)])) =
        actions (after_cleanup (run es)) @
          [SetModuleStoreCache None, EmitPromise (Subscribe a),
           SocketOn (length (closures (run es)))]
      \<and> moduleStoreCache (step (run (es @ [Render (Some a), ev] @ es2))
            (SubscribeResolved (length (closures (run es))) d))
          = moduleStoreCache (run (es @ [Render (Some a), ev] @ es2)))
   \<and> (\<forall>i. i < length (closures (run es)) \<and> cleanup (run es) \<noteq> Some i \<longrightarrow>
          moduleStoreCache (step (run es) (SubscribeResolved i d)) = moduleStoreCache (run es))
   \<and> (deps (run es) \<noteq> Some (Some m) \<longrightarrow> step (run es) (DataPush m d) = run es)
   \<and> length (listeners (run es)) \<le> 1
   \<and> length (outstanding (emitted (actions (run es))) []) \<le> 1"
proof (intro conjI impI allI)
  assume h: "a \<noteq> [] \<and> \<not> unmounted (run es) \<and> deps (run es) \<noteq> Some (Some a)
      \<and> (ev = Unmount \<or> (\<exists>b. ev = Render b \<and> b \<noteq> Some a))"
  then have a: "a \<noteq> []" and mounted: "\<not> unmounted (run es)"
    and change: "deps (run es) \<noteq> Some (Some a)"
    and ev: "ev = Unmount \<or> (\<exists>b. ev = Render b \<and> b \<noteq> Some a)"
    by blast+
  show "moduleStoreCache (step (run (es @ [Render (Some a), ev] @ es2))
            (SubscribeResolved (length (closures (run es))) d))
          = moduleStoreCache (run (es @ [Render (Some a), ev] @ es2))"
    by (rule late_response [OF a mounted change ev])
  have "run (es @ [Render (Some a)]) =
      (effect (Some a) (after_cleanup (run es)))\<lparr>deps := Some (Some a)\<rparr>"
    using mounted change by (simp add: run_snoc step_Render_after_cleanup)
  then show "actions (run (es @ [Render (Some a)])) =
        actions (after_cleanup (run es)) @
          [SetModuleStoreCache None, EmitPromise (Subscribe a),
           SocketOn (length (closures (run es)))]"
    by (simp add: effect_present_fields [OF a] after_cleanup_closures)
next
  fix i
  assume "i < length (closures (run es)) \<and> cleanup (run es) \<noteq> Some i"
  with hook_inv_run [of es] have "i < length (closures (run es))" "destroyed (closures (run es) ! i)"
    by (simp_all add: hook_inv_def)
  then show "moduleStoreCache (step (run es) (SubscribeResolved i d)) = moduleStoreCache (run es)"
    by (rule response_destroyed)
next
  assume "deps (run es) \<noteq> Some (Some m)"
  with hook_inv_run [of es] show "step (run es) (DataPush m d) = run es"
    by (rule push_other_module)
next
  show "length (listeners (run es)) \<le> 1"
    using hook_inv_run [of es] by (cases "cleanup (run es)") (simp_all add: hook_inv_def)
  show "length (outstanding (emitted (actions (run es))) []) \<le> 1"
    using hook_inv_run [of es] by (cases "cleanup (run es)") (simp_all add: hook_inv_def)
qed

theorem stale_messages_discarded_witness:
  "''a'' \<noteq> [] \<and> \<not> unmounted (run []) \<and> deps (run []) \<noteq> Some (Some ''a'')
   \<and> moduleStoreCache (step (run [Render (Some ''a''), Render (Some ''b'')])
         (SubscribeResolved 0 info_a)) = None
   \<and> (0::nat) < length (closures (run [Render (Some ''a''), Render (Some ''b'')]))
   \<and> cleanup (run [Render (Some ''a''), Render (Some ''b'')]) \<noteq> Some 0
   \<and> deps (run [Render (Some ''a''), Render (Some ''b'')]) \<noteq> Some (Some ''a'')
   \<and> step (run [Render (Some ''a''), Render (Some ''b'')]) (DataPush ''a'' info_a)
       = run [Render (Some ''a''), Render (Some ''b'')]
   \<and> moduleStoreCache (step (run [Render (Some ''a''), Render (Some ''b'')])
         (DataPush ''b'' info_b)) = Some info_b"
proof -
  let ?s = "run [Render (Some ''a''), Render (Some ''b'')]"
  have h0: "''a'' \<noteq> [] \<and> \<not> unmounted (run []) \<and> deps (run []) \<noteq> Some (Some ''a'')
      \<and> (Render (Some ''b'') = Unmount \<or> (\<exists>b. Render (Some ''b'') = Render b \<and> b \<noteq> Some ''a''))"
    by (simp add: run_Nil initial_state_def)
  have len0: "length (closures (run [])) = 0"
    by (simp add: run_Nil initial_state_def)
  note t0 = stale_messages_discarded [where a = "''a''" and es = "[]" and ev = "Render (Some ''b'')"
      and ?es2.0 = "[]" and d = info_a,
      THEN conjunct1, THEN mp, OF h0, THEN conjunct2]
  have r0: "moduleStoreCache (step ?s (SubscribeResolved 0 info_a)) = moduleStoreCache ?s"
    using t0 by (simp only: len0 append_Nil append_Nil2)
  have c: "moduleStoreCache ?s = None" by (simp add: run_a_b)
  have h1: "deps ?s \<noteq> Some (Some ''a'')" by (simp add: run_a_b)
  have h2: "(0::nat) < length (closures ?s)" "cleanup ?s \<noteq> Some 0" by (simp_all add: run_a_b)
  note t1 = stale_messages_discarded [where es = "[Render (Some ''a''), Render (Some ''b'')]"
      and m = "''a''" and d = info_a,
      THEN conjunct2, THEN conjunct2, THEN conjunct1, THEN mp, OF h1]
  have r2: "moduleStoreCache (step ?s (DataPush ''b'' info_b)) = Some info_b"
    unfolding run_a_b by (simp add: step.simps updateCache_def setModuleStoreCache_def)
  from h0 r0 c h1 h2 t1 r2 show ?thesis by simp
qed

text \<open>
  C8, as amended. When the hook is mounted with a present module identifier \<open>a\<close>, a
  teardown and a change of the identifier remove the handler, reset the cached state to
  null and send the unsubscribe request for \<open>a\<close>, in every reachable state and so
  whatever became of the subscribe request; on a change the cached state is reset again
  and only then the subscribe request for the new identifier is sent, if it is present.
  When the hook is mounted without a module identifier, a teardown does nothing and a
  change to a present identifier resets the cached state and subscribes; no unsubscribe
  request is sent. A failed unsubscribe request is written to the console and changes
  neither the cached state nor the handlers.
\<close>

theorem unsubscribe_on_change:
  "(deps (run es) = Some (Some a) \<and> a \<noteq> [] \<and> \<not> unmounted (run es) \<longrightarrow>
      (\<exists>i. actions (step (run es) Unmount) =
         actions (run es) @ [SocketOff i, SetModuleStoreCache None, EmitPromise (Unsubscribe a)])
      \<and> (b \<noteq> [] \<and> b \<noteq> a \<longrightarrow>
          (\<exists>i j. actions (step (run es) (Render (Some b))) =
             actions (run es) @ [SocketOff i, SetModuleStoreCache None, EmitPromise (Unsubscribe a),
                                 SetModuleStoreCache None, EmitPromise (Subscribe b), SocketOn j]))
      \<and> (absent m \<longrightarrow>
          (\<exists>i. actions (step (run es) (Render m)) =
             actions (run es) @ [SocketOff i, SetModuleStoreCache None, EmitPromise (Unsubscribe a),
                                 SetModuleStoreCache None])))
   \<and> (\<not> unmounted (run es) \<and> (deps (run es) = None \<or> (\<exists>m'. deps (run es) = Some m' \<and> absent m')) \<longrightarrow>
      actions (step (run es) Unmount) = actions (run es)
      \<and> (b \<noteq> [] \<longrightarrow>
          actions (step (run es) (Render (Some b))) =
            actions (run es) @ [SetModuleStoreCache None, EmitPromise (Subscribe b),
                                SocketOn (length (closures (run es)))]))
   \<and> moduleStoreCache (step (run es) (UnsubscribeRejected j err)) = moduleStoreCache (run es)
   \<and> listeners (step (run es) (UnsubscribeRejected j err)) = listeners (run es)
   \<and> (actions (step (run es) (UnsubscribeRejected j err)) = actions (run es)
       \<or> actions (step (run es) (UnsubscribeRejected j err)) =
            actions (run es) @ [ConsoleError (''Failed to unsubscribe to module store '' @ err)])"
proof (intro conjI impI)
  assume h: "deps (run es) = Some (Some a) \<and> a \<noteq> [] \<and> \<not> unmounted (run es)"
  then have d: "deps (run es) = Some (Some a)" and a: "a \<noteq> []" and mounted: "\<not> unmounted (run es)"
    by blast+
  note c = change_from_present [OF hook_inv_run d a mounted]
  show "\<exists>i. actions (step (run es) Unmount) =
         actions (run es) @ [SocketOff i, SetModuleStoreCache None, EmitPromise (Unsubscribe a)]"
    by (rule c(1))
  show "\<exists>i j. actions (step (run es) (Render (Some b))) =
             actions (run es) @ [SocketOff i, SetModuleStoreCache None, EmitPromise (Unsubscribe a),
                                 SetModuleStoreCache None, EmitPromise (Subscribe b), SocketOn j]"
    if "b \<noteq> [] \<and> b \<noteq> a"
    using that by (intro c(2)) blast+
  show "\<exists>i. actions (step (run es) (Render m)) =
             actions (run es) @ [SocketOff i, SetModuleStoreCache None, EmitPromise (Unsubscribe a),
                                 SetModuleStoreCache None]"
    if "absent m"
    using that by (rule c(3))
next
  assume h: "\<not> unmounted (run es) \<and> (deps (run es) = None \<or> (\<exists>m'. deps (run es) = Some m' \<and> absent m'))"
  then have mounted: "\<not> unmounted (run es)"
    and d: "deps (run es) = None \<or> (\<exists>m'. deps (run es) = Some m' \<and> absent m')"
    by blast+
  note c = change_from_absent [OF hook_inv_run mounted d]
  show "actions (step (run es) Unmount) = actions (run es)" by (rule c(1))
  show "actions (step (run es) (Render (Some b))) =
            actions (run es) @ [SetModuleStoreCache None, EmitPromise (Subscribe b),
                                SocketOn (length (closures (run es)))]"
    if "b \<noteq> []"
    using that by (rule c(2))
next
  show "moduleStoreCache (step (run es) (UnsubscribeRejected j err)) = moduleStoreCache (run es)"
    by (rule step_UnsubscribeRejected_fields)
  show "listeners (step (run es) (UnsubscribeRejected j err)) = listeners (run es)"
    by (rule step_UnsubscribeRejected_fields)
  show "actions (step (run es) (UnsubscribeRejected j err)) = actions (run es)
       \<or> actions (step (run es) (UnsubscribeRejected j err)) =
            actions (run es) @ [ConsoleError (''Failed to unsubscribe to module store '' @ err)]"
    by (rule step_UnsubscribeRejected_fields)
qed

theorem unsubscribe_on_change_witness:
  "deps (run [Render (Some ''a'')]) = Some (Some ''a'') \<and> ''a'' \<noteq> []
   \<and> \<not> unmounted (run [Render (Some ''a'')])
   \<and> emitted (actions (step (run [Render (Some ''a'')]) Unmount)) = [Subscribe ''a'', Unsubscribe ''a'']
   \<and> ''b'' \<noteq> [] \<and> ''b'' \<noteq> ''a''
   \<and> emitted (actions (step (run [Render (Some ''a'')]) (Render (Some ''b''))))
        = [Subscribe ''a'', Unsubscribe ''a'', Subscribe ''b'']
   \<and> absent None
   \<and> emitted (actions (step (run [Render (Some ''a'')]) (Render None)))
        = [Subscribe ''a'', Unsubscribe ''a'']
   \<and> \<not> unmounted (run [Render None]) \<and> deps (run [Render None]) = Some None
   \<and> actions (step (run [Render None]) Unmount) = actions (run [Render None])
   \<and> emitted (actions (step (run [Render None]) (Render (Some ''b'')))) = [Subscribe ''b'']"
proof -
  let ?s = "run [Render (Some ''a'')]"
  let ?u = "run [Render None]"
  have h: "deps ?s = Some (Some ''a'') \<and> ''a'' \<noteq> [] \<and> \<not> unmounted ?s"
    by (simp add: run_a)
  have e: "emitted (actions ?s) = [Subscribe ''a'']"
    by (simp add: run_a)
  note t = unsubscribe_on_change [where es = "[Render (Some ''a'')]" and a = "''a''"
      and b = "''b''" and m = None, THEN conjunct1, THEN mp, OF h]
  from t [THEN conjunct1] e
  have r1: "emitted (actions (step ?s Unmount)) = [Subscribe ''a'', Unsubscribe ''a'']"
    by (auto simp: emitted_append)
  have hb: "''b'' \<noteq> [] \<and> ''b'' \<noteq> ''a''" by simp
  from t [THEN conjunct2, THEN conjunct1, THEN mp, OF hb] e
  have r2: "emitted (actions (step ?s (Render (Some ''b''))))
        = [Subscribe ''a'', Unsubscribe ''a'', Subscribe ''b'']"
    by (auto simp: emitted_append)
  have hn: "absent None" by simp
  from t [THEN conjunct2, THEN conjunct2, THEN mp, OF hn] e
  have r3: "emitted (actions (step ?s (Render None))) = [Subscribe ''a'', Unsubscribe ''a'']"
    by (auto simp: emitted_append)
  have hu: "\<not> unmounted ?u \<and> (deps ?u = None \<or> (\<exists>m'. deps ?u = Some m' \<and> absent m'))"
    by (simp add: run_undefined)
  have eu: "emitted (actions ?u) = []"
    by (simp add: run_undefined)
  note u = unsubscribe_on_change [where es = "[Render None]" and b = "''b''",
      THEN conjunct2, THEN conjunct1, THEN mp, OF hu]
  have r4: "actions (step ?u Unmount) = actions ?u"
    by (rule u [THEN conjunct1])
  from u [THEN conjunct2] eu
  have r5: "emitted (actions (step ?u (Render (Some ''b'')))) = [Subscribe ''b'']"
    by (simp add: emitted_append)
  have hu': "\<not> unmounted ?u" "deps ?u = Some None"
    by (simp_all add: run_undefined)
  from h r1 hb r2 hn r3 hu' r4 r5 show ?thesis by blast
qed

text \<open>
  The claim as written fails when the identifier was absent: a change from no identifier
  to \<open>b\<close> and a teardown without an identifier send no unsubscribe request.
\<close>

theorem unsubscribe_on_change_counterexample:
  "deps (run [Render None]) \<noteq> Some (Some ''b'')
   \<and> emitted (actions (run [Render None, Render (Some ''b'')])) = [Subscribe ''b'']
   \<and> emitted (actions (run [Render None, Unmount])) = []"
  by (simp add: hook_eval)

text \<open>
  C10, as amended. The effect run without a module identifier (undefined or empty) resets
  the cached state to null, registers no handler, sends no request and leaves no cleanup
  behind. On the first render without an identifier the hook returns null and nothing is
  sent. In a reachable state, after a render without an identifier the cached state is
  null, every further call returns null, and a teardown does nothing; the only request
  that the render can cause is the unsubscribe request for the identifier that was
  present before. When the identifier was absent before, the call itself returns null and
  no request is sent.
\<close>

theorem absent_module_id:
  "absent m \<longrightarrow>
     (moduleStoreCache (effect m s) = None \<and> cleanup (effect m s) = None
      \<and> listeners (effect m s) = listeners s \<and> closures (effect m s) = closures s
      \<and> actions (effect m s) = actions s @ [SetModuleStoreCache None])
     \<and> fst (useModuleStoreInfo m initial_state) = None
     \<and> actions (snd (useModuleStoreInfo m initial_state)) = [SetModuleStoreCache None]
     \<and> (\<not> unmounted (run es) \<longrightarrow>
          moduleStoreCache (snd (useModuleStoreInfo m (run es))) = None
          \<and> cleanup (snd (useModuleStoreInfo m (run es))) = None
          \<and> listeners (snd (useModuleStoreInfo m (run es))) = []
          \<and> fst (useModuleStoreInfo m' (snd (useModuleStoreInfo m (run es)))) = None
          \<and> actions (step (snd (useModuleStoreInfo m (run es))) Unmount)
              = actions (snd (useModuleStoreInfo m (run es)))
          \<and> (deps (run es) = Some (Some a) \<and> a \<noteq> [] \<longrightarrow>
                emitted (actions (snd (useModuleStoreInfo m (run es)))) =
                  emitted (actions (run es)) @ [Unsubscribe a])
          \<and> (deps (run es) = None \<or> (\<exists>m0. deps (run es) = Some m0 \<and> absent m0) \<longrightarrow>
                fst (useModuleStoreInfo m (run es)) = None
                \<and> emitted (actions (snd (useModuleStoreInfo m (run es)))) =
                    emitted (actions (run es))))"
proof (intro impI conjI)
  assume m: "absent m"
  show "moduleStoreCache (effect m s) = None" "cleanup (effect m s) = None"
    "listeners (effect m s) = listeners s" "closures (effect m s) = closures s"
    "actions (effect m s) = actions s @ [SetModuleStoreCache None]"
    by (simp_all add: effect_absent_fields [OF m])
  show "fst (useModuleStoreInfo m initial_state) = None"
    by (simp add: useModuleStoreInfo_def initial_state_def)
  have "step initial_state (Render m) = (effect m initial_state)\<lparr>deps := Some m\<rparr>"
    by (simp add: step.simps initial_state_def)
  then show "actions (snd (useModuleStoreInfo m initial_state)) = [SetModuleStoreCache None]"
    by (simp add: useModuleStoreInfo_def effect_absent_fields [OF m]) (simp add: initial_state_def)
next
  assume m: "absent m" and mounted: "\<not> unmounted (run es)"
  note r = render_absent [OF m mounted]
  show "moduleStoreCache (snd (useModuleStoreInfo m (run es))) = None"
    "cleanup (snd (useModuleStoreInfo m (run es))) = None"
    "listeners (snd (useModuleStoreInfo m (run es))) = []"
    "fst (useModuleStoreInfo m' (snd (useModuleStoreInfo m (run es)))) = None"
    by (simp_all add: useModuleStoreInfo_def r)
  have inv': "hook_inv (step (run es) (Render m))"
    by (rule hook_inv_step) (rule hook_inv_run)
  have "deps (step (run es) (Render m)) = None
        \<or> (\<exists>m0. deps (step (run es) (Render m)) = Some m0 \<and> absent m0)"
    using r(5) m by simp
  from change_from_absent(1) [OF inv' r(4) this]
  show "actions (step (snd (useModuleStoreInfo m (run es))) Unmount)
              = actions (snd (useModuleStoreInfo m (run es)))"
    by (simp add: useModuleStoreInfo_def)
next
  assume m: "absent m" and mounted: "\<not> unmounted (run es)"
    and "deps (run es) = Some (Some a) \<and> a \<noteq> []"
  then show "emitted (actions (snd (useModuleStoreInfo m (run es)))) =
                  emitted (actions (run es)) @ [Unsubscribe a]"
    using render_absent_emitted(1) [OF m mounted, of a] by (simp add: useModuleStoreInfo_def)
next
  assume m: "absent m" and mounted: "\<not> unmounted (run es)"
    and d: "deps (run es) = None \<or> (\<exists>m0. deps (run es) = Some m0 \<and> absent m0)"
  note e = render_absent_emitted(2) [OF m mounted d]
  show "fst (useModuleStoreInfo m (run es)) = None"
    using e by (simp add: useModuleStoreInfo_def)
  show "emitted (actions (snd (useModuleStoreInfo m (run es)))) = emitted (actions (run es))"
    using e by (simp add: useModuleStoreInfo_def)
qed

theorem absent_module_id_witness:
  "absent None \<and> \<not> unmounted (run [Render (Some ''a''), SubscribeResolved 0 info_a])
   \<and> deps (run [Render (Some ''a''), SubscribeResolved 0 info_a]) = Some (Some ''a'') \<and> ''a'' \<noteq> []
   \<and> moduleStoreCache (snd (useModuleStoreInfo None
         (run [Render (Some ''a''), SubscribeResolved 0 info_a]))) = None
   \<and> fst (useModuleStoreInfo None (snd (useModuleStoreInfo None
         (run [Render (Some ''a''), SubscribeResolved 0 info_a])))) = None
   \<and> emitted (actions (snd (useModuleStoreInfo None
         (run [Render (Some ''a''), SubscribeResolved 0 info_a]))))
        = [Subscribe ''a'', Unsubscribe ''a'']
   \<and> \<not> unmounted (run []) \<and> deps (run []) = None
   \<and> fst (useModuleStoreInfo None (run [])) = None
   \<and> emitted (actions (snd (useModuleStoreInfo None (run [])))) = []"
proof -
  let ?s = "run [Render (Some ''a''), SubscribeResolved 0 info_a]"
  have hn: "absent None" by simp
  have hs: "\<not> unmounted ?s" and ds: "deps ?s = Some (Some ''a'') \<and> ''a'' \<noteq> []"
    and es: "emitted (actions ?s) = [Subscribe ''a'']"
    by (simp_all add: run_a_ready)
  have h0: "\<not> unmounted (run [])" and d0: "deps (run []) = None"
    and e0: "emitted (actions (run [])) = []"
    by (simp_all add: run_Nil initial_state_def)
  note t = absent_module_id [where m = None and es = "[Render (Some ''a''), SubscribeResolved 0 info_a]"
      and a = "''a''" and m' = None,
      THEN mp, OF hn, THEN conjunct2, THEN conjunct2, THEN conjunct2, THEN mp, OF hs]
  have r1: "moduleStoreCache (snd (useModuleStoreInfo None ?s)) = None"
    by (rule t [THEN conjunct1])
  have r2: "fst (useModuleStoreInfo None (snd (useModuleStoreInfo None ?s))) = None"
    by (rule t [THEN conjunct2, THEN conjunct2, THEN conjunct2, THEN conjunct1])
  have r3: "emitted (actions (snd (useModuleStoreInfo None ?s))) = [Subscribe ''a'', Unsubscribe ''a'']"
    using t [THEN conjunct2, THEN conjunct2, THEN conjunct2, THEN conjunct2, THEN conjunct2,
        THEN conjunct1, THEN mp, OF ds] es
    by simp
  note u = absent_module_id [where m = None and es = "[]",
      THEN mp, OF hn, THEN conjunct2, THEN conjunct2, THEN conjunct2, THEN mp, OF h0]
  have d0': "deps (run []) = None \<or> (\<exists>m0. deps (run []) = Some m0 \<and> absent m0)"
    using d0 by simp
  note u' = u [THEN conjunct2, THEN conjunct2, THEN conjunct2, THEN conjunct2, THEN conjunct2,
        THEN conjunct2, THEN mp, OF d0']
  have r4: "fst (useModuleStoreInfo None (run [])) = None"
    by (rule u' [THEN conjunct1])
  have r5: "emitted (actions (snd (useModuleStoreInfo None (run [])))) = []"
    using u' [THEN conjunct2] e0 by simp
  from hn hs ds r1 r2 r3 h0 d0 r4 r5 show ?thesis by blast
qed

text \<open>
  The claim as written fails when a subscription is active: the call without an
  identifier returns the value that is still cached for the module \<open>a\<close>, and the cleanup
  of the run for \<open>a\<close> sends its unsubscribe request.
\<close>

theorem absent_module_id_counterexample:
  "fst (useModuleStoreInfo None (run [Render (Some ''a''), SubscribeResolved 0 info_a]))
     = Some info_a
   \<and> emitted (actions (snd (useModuleStoreInfo None
         (run [Render (Some ''a''), SubscribeResolved 0 info_a]))))
       = [Subscribe ''a'', Unsubscribe ''a'']"
  by (simp add: useModuleStoreInfo_def hook_eval)

end
